theory Spec2Isabelle
  imports Complex_Main "HOL-Library.Multiset"
begin

section \<open>Data model\<close>

text \<open>
  A vector or position \<^verbatim>\<open>{x, y}\<close> of the source. JavaScript numbers are modelled as
  real numbers, as the data model of the specification has them (real-valued):
  rounding, infinities and NaN are outside the model.
\<close>

record point =
  px :: real
  py :: real

text \<open>
  A node of the graph: its current position \<^verbatim>\<open>x\<close>, \<^verbatim>\<open>y\<close>, its extent, and the staged
  position \<^verbatim>\<open>up\<close>, which is \<^verbatim>\<open>undefined\<close> (\<open>None\<close>) outside a run of \<^verbatim>\<open>pfs\<close>.
  Every other field a node carries lives in the extension slot of the record, so a
  statement over \<open>'m node_scheme\<close> covers nodes with any further fields.
  The array \<^verbatim>\<open>graph.nodes\<close> is a list of such records: its entries are taken to
  be distinct objects, and the edges of the graph, which \<^verbatim>\<open>pfs\<close> never reads, are left out.
\<close>

record node =
  x :: real
  y :: real
  width :: real
  height :: real
  up :: "point option"

text \<open>
  The four primitives imported from \<^verbatim>\<open>agora-graph\<close>. Their code is not part of this
  repository, so they are parameters of every definition below. The options object
  \<^verbatim>\<open>{ padding }\<close> that \<^verbatim>\<open>overlap\<close> receives is modelled by its one field.
\<close>

record 'm geometry =
  overlap :: "'m node_scheme \<Rightarrow> 'm node_scheme \<Rightarrow> real \<Rightarrow> bool"
  vector :: "'m node_scheme \<Rightarrow> 'm node_scheme \<Rightarrow> point"
  optimalVector :: "'m node_scheme \<Rightarrow> 'm node_scheme \<Rightarrow> real \<Rightarrow> point"
  diff :: "point \<Rightarrow> point \<Rightarrow> point"

text \<open>The one exception the source throws:
  \<^verbatim>\<open>'cannot update undefined updated position for' + node\<close>.\<close>

datatype error = MissingStaged

section \<open>The functions of the source\<close>

subsection \<open>\<^verbatim>\<open>delta\<close>\<close>

definition delta :: "'m geometry \<Rightarrow> 'm node_scheme \<Rightarrow> 'm node_scheme \<Rightarrow> real \<Rightarrow> point" where
  "delta G node1 node2 padding =
     (if \<not> overlap G node1 node2 padding then \<lparr>px = 0, py = 0\<rparr>
      else diff G (optimalVector G node1 node2 padding) (vector G node1 node2))"

subsection \<open>\<^verbatim>\<open>same\<close>\<close>

text \<open>
  The while loop of \<^verbatim>\<open>same\<close>, with its variable \<^verbatim>\<open>k\<close> as the last argument. The guard
  \<^verbatim>\<open>k < nodes.length - 1\<close> is false for the empty array in JavaScript (\<open>-1\<close>) as it is
  with the truncating subtraction of \<open>nat\<close>. Whenever the loop reads \<^verbatim>\<open>nodes[index]\<close>
  and \<^verbatim>\<open>nodes[k + 1]\<close> both indices are in range.
\<close>

function same_loop :: "'a list \<Rightarrow> nat \<Rightarrow> ('a \<Rightarrow> 'a \<Rightarrow> bool) \<Rightarrow> nat \<Rightarrow> nat" where
  "same_loop nodes index callback k =
     (if k < length nodes - 1 then
        (if \<not> callback (nodes ! index) (nodes ! (k + 1)) then k
         else same_loop nodes index callback (k + 1))
      else k)"
  by pat_completeness auto
termination
  by (relation "measure (\<lambda>(nodes, index, callback, k). length nodes - k)") auto

declare same_loop.simps [simp del]

definition same :: "'a list \<Rightarrow> nat \<Rightarrow> ('a \<Rightarrow> 'a \<Rightarrow> bool) \<Rightarrow> nat" where
  "same nodes index callback = same_loop nodes index callback index"

subsection \<open>The two nested loops that select \<^verbatim>\<open>maxDelta\<close>\<close>

text \<open>The index pairs \<open>(m, j)\<close> in the order the nested \<^verbatim>\<open>for\<close> loops visit them:
  \<open>m\<close> from \<open>i\<close> to \<open>k\<close>, and for each \<open>m\<close>, \<open>j\<close> from \<open>k + 1\<close> to the end.\<close>

definition group_pairs :: "nat \<Rightarrow> nat \<Rightarrow> nat \<Rightarrow> (nat \<times> nat) list" where
  "group_pairs i k n = concat (map (\<lambda>m. map (\<lambda>j. (m, j)) [k + 1..<n]) [i..<k + 1])"

text \<open>One pass of the inner body: \<^verbatim>\<open>if (Math.abs(move) > Math.abs(maxDelta)) maxDelta = move\<close>.\<close>

definition keep_larger :: "real \<Rightarrow> real \<Rightarrow> real" where
  "keep_larger maxDelta move = (if \<bar>move\<bar> > \<bar>maxDelta\<bar> then move else maxDelta)"

definition maxDeltaX :: "'m geometry \<Rightarrow> 'm node_scheme list \<Rightarrow> real \<Rightarrow> nat \<Rightarrow> nat \<Rightarrow> real" where
  "maxDeltaX G nodes padding i k =
     foldl (\<lambda>maxDelta (m, j). keep_larger maxDelta (px (delta G (nodes ! m) (nodes ! j) padding)))
       0 (group_pairs i k (length nodes))"

definition maxDeltaY :: "'m geometry \<Rightarrow> 'm node_scheme list \<Rightarrow> real \<Rightarrow> nat \<Rightarrow> nat \<Rightarrow> real" where
  "maxDeltaY G nodes padding i k =
     foldl (\<lambda>maxDelta (m, j). keep_larger maxDelta (py (delta G (nodes ! m) (nodes ! j) padding)))
       0 (group_pairs i k (length nodes))"

subsection \<open>The push loops\<close>

text \<open>
  \<^verbatim>\<open>for (let j = k + 1; j < nodes.length; j++)\<close>: the node at \<open>j\<close> must carry a staged
  position, else the loop throws; otherwise \<^verbatim>\<open>maxDelta\<close> is added to one coordinate of it.
  A throw ends the run with the error; the array as the throw leaves it is not
  part of the result.
\<close>

function pushX :: "'m node_scheme list \<Rightarrow> real \<Rightarrow> nat \<Rightarrow> error + 'm node_scheme list" where
  "pushX nodes maxDelta j =
     (if j < length nodes then
        (case up (nodes ! j) of
           None \<Rightarrow> Inl MissingStaged
         | Some u \<Rightarrow>
             pushX (nodes[j := (nodes ! j)\<lparr>up := Some (u\<lparr>px := px u + maxDelta\<rparr>)\<rparr>]) maxDelta (j + 1))
      else Inr nodes)"
  by pat_completeness auto
termination
  by (relation "measure (\<lambda>(nodes, maxDelta, j). length nodes - j)") auto

declare pushX.simps [simp del]

function pushY :: "'m node_scheme list \<Rightarrow> real \<Rightarrow> nat \<Rightarrow> error + 'm node_scheme list" where
  "pushY nodes maxDelta j =
     (if j < length nodes then
        (case up (nodes ! j) of
           None \<Rightarrow> Inl MissingStaged
         | Some u \<Rightarrow>
             pushY (nodes[j := (nodes ! j)\<lparr>up := Some (u\<lparr>py := py u + maxDelta\<rparr>)\<rparr>]) maxDelta (j + 1))
      else Inr nodes)"
  by pat_completeness auto
termination
  by (relation "measure (\<lambda>(nodes, maxDelta, j). length nodes - j)") auto

declare pushY.simps [simp del]

subsection \<open>\<^verbatim>\<open>scanX\<close> and \<^verbatim>\<open>scanY\<close>\<close>

text \<open>The body of the while loop: it returns the array and the next cursor \<^verbatim>\<open>k + 1\<close>.\<close>

definition scanX_body ::
  "'m geometry \<Rightarrow> real \<Rightarrow> 'm node_scheme list \<Rightarrow> nat \<Rightarrow> error + ('m node_scheme list \<times> nat)" where
  "scanX_body G padding nodes i =
     (let k = same nodes i (\<lambda>n1 n2. x n1 = x n2);
          maxDelta = maxDeltaX G nodes padding i k
      in case pushX nodes maxDelta (k + 1) of
           Inl e \<Rightarrow> Inl e
         | Inr nodes' \<Rightarrow> Inr (nodes', k + 1))"

definition scanY_body ::
  "'m geometry \<Rightarrow> real \<Rightarrow> 'm node_scheme list \<Rightarrow> nat \<Rightarrow> error + ('m node_scheme list \<times> nat)" where
  "scanY_body G padding nodes i =
     (let k = same nodes i (\<lambda>n1 n2. y n1 = y n2);
          maxDelta = maxDeltaY G nodes padding i k
      in case pushY nodes maxDelta (k + 1) of
           Inl e \<Rightarrow> Inl e
         | Inr nodes' \<Rightarrow> Inr (nodes', k + 1))"

subsection \<open>Facts the termination of the scans rests on\<close>

text \<open>\<^verbatim>\<open>same\<close> never returns less than its index argument.\<close>

lemma same_loop_ge: "k \<le> same_loop nodes index callback k"
proof (induction nodes index callback k rule: same_loop.induct)
  case (1 nodes index callback k)
  then show ?case
    by (subst same_loop.simps) auto
qed

lemma same_ge: "i \<le> same nodes i callback"
  by (simp add: same_def same_loop_ge)

text \<open>The effect of a push on one node: \<^verbatim>\<open>node.up.x = node.up.x + maxDelta\<close>, and the same
  for \<^verbatim>\<open>y\<close>.\<close>

definition bumpX :: "real \<Rightarrow> 'm node_scheme \<Rightarrow> 'm node_scheme" where
  "bumpX d n = n\<lparr>up := map_option (\<lambda>u. u\<lparr>px := px u + d\<rparr>) (up n)\<rparr>"

definition bumpY :: "real \<Rightarrow> 'm node_scheme \<Rightarrow> 'm node_scheme" where
  "bumpY d n = n\<lparr>up := map_option (\<lambda>u. u\<lparr>py := py u + d\<rparr>) (up n)\<rparr>"

lemma pushX_closed:
  "pushX nodes d j =
     (if list_all (\<lambda>n. up n \<noteq> None) (drop j nodes)
      then Inr (take j nodes @ map (bumpX d) (drop j nodes))
      else Inl MissingStaged)"
proof (induction nodes d j rule: pushX.induct)
  case (1 nodes maxDelta j)
  show ?case
  proof (cases "j < length nodes")
    case False
    then show ?thesis by (simp add: pushX.simps[of nodes maxDelta j])
  next
    case True
    note lt = this
    show ?thesis
    proof (cases "up (nodes ! j)")
      case None
      with lt show ?thesis
        by (subst pushX.simps) (simp add: Cons_nth_drop_Suc[symmetric])
    next
      case (Some u)
      with lt 1 show ?thesis
        by (subst pushX.simps)
          (simp add: Cons_nth_drop_Suc[symmetric] take_Suc_conv_app_nth bumpX_def)
    qed
  qed
qed

lemma pushY_closed:
  "pushY nodes d j =
     (if list_all (\<lambda>n. up n \<noteq> None) (drop j nodes)
      then Inr (take j nodes @ map (bumpY d) (drop j nodes))
      else Inl MissingStaged)"
proof (induction nodes d j rule: pushY.induct)
  case (1 nodes maxDelta j)
  show ?case
  proof (cases "j < length nodes")
    case False
    then show ?thesis by (simp add: pushY.simps[of nodes maxDelta j])
  next
    case True
    note lt = this
    show ?thesis
    proof (cases "up (nodes ! j)")
      case None
      with lt show ?thesis
        by (subst pushY.simps) (simp add: Cons_nth_drop_Suc[symmetric])
    next
      case (Some u)
      with lt 1 show ?thesis
        by (subst pushY.simps)
          (simp add: Cons_nth_drop_Suc[symmetric] take_Suc_conv_app_nth bumpY_def)
    qed
  qed
qed

lemma scanX_body_Inr:
  assumes "scanX_body G padding nodes i = Inr (nodes', i')"
  shows "i' = same nodes i (\<lambda>n1 n2. x n1 = x n2) + 1" and "length nodes' = length nodes"
  using assms
  by (auto simp: scanX_body_def Let_def pushX_closed split: sum.splits if_splits)

lemma scanY_body_Inr:
  assumes "scanY_body G padding nodes i = Inr (nodes', i')"
  shows "i' = same nodes i (\<lambda>n1 n2. y n1 = y n2) + 1" and "length nodes' = length nodes"
  using assms
  by (auto simp: scanY_body_def Let_def pushY_closed split: sum.splits if_splits)

text \<open>The while loops of \<^verbatim>\<open>scanX\<close> and \<^verbatim>\<open>scanY\<close>, with the cursor \<^verbatim>\<open>i\<close> as an argument.\<close>

function scanX_loop ::
  "'m geometry \<Rightarrow> real \<Rightarrow> 'm node_scheme list \<Rightarrow> nat \<Rightarrow> error + 'm node_scheme list" where
  "scanX_loop G padding nodes i =
     (if i < length nodes - 1 then
        (case scanX_body G padding nodes i of
           Inl e \<Rightarrow> Inl e
         | Inr (nodes', i') \<Rightarrow> scanX_loop G padding nodes' i')
      else Inr nodes)"
  by pat_completeness auto
termination
proof (relation "measure (\<lambda>(G, padding, nodes, i). length nodes - i)")
  fix G :: "'m geometry" and padding nodes i r nodes' i'
  assume "i < length nodes - 1" and "scanX_body G padding nodes i = Inr r" and "(nodes', i') = r"
  then have b: "scanX_body G padding nodes i = Inr (nodes', i')" by simp
  have "i < i'"
    using scanX_body_Inr(1)[OF b] same_ge[of i nodes "\<lambda>n1 n2. x n1 = x n2"] by simp
  with \<open>i < length nodes - 1\<close> scanX_body_Inr(2)[OF b]
  show "((G, padding, nodes', i'), (G, padding, nodes, i))
          \<in> measure (\<lambda>(G, padding, nodes, i). length nodes - i)"
    by simp
qed simp

declare scanX_loop.simps [simp del]

function scanY_loop ::
  "'m geometry \<Rightarrow> real \<Rightarrow> 'm node_scheme list \<Rightarrow> nat \<Rightarrow> error + 'm node_scheme list" where
  "scanY_loop G padding nodes i =
     (if i < length nodes - 1 then
        (case scanY_body G padding nodes i of
           Inl e \<Rightarrow> Inl e
         | Inr (nodes', i') \<Rightarrow> scanY_loop G padding nodes' i')
      else Inr nodes)"
  by pat_completeness auto
termination
proof (relation "measure (\<lambda>(G, padding, nodes, i). length nodes - i)")
  fix G :: "'m geometry" and padding nodes i r nodes' i'
  assume "i < length nodes - 1" and "scanY_body G padding nodes i = Inr r" and "(nodes', i') = r"
  then have b: "scanY_body G padding nodes i = Inr (nodes', i')" by simp
  have "i < i'"
    using scanY_body_Inr(1)[OF b] same_ge[of i nodes "\<lambda>n1 n2. y n1 = y n2"] by simp
  with \<open>i < length nodes - 1\<close> scanY_body_Inr(2)[OF b]
  show "((G, padding, nodes', i'), (G, padding, nodes, i))
          \<in> measure (\<lambda>(G, padding, nodes, i). length nodes - i)"
    by simp
qed simp

declare scanY_loop.simps [simp del]

definition scanX :: "'m geometry \<Rightarrow> 'm node_scheme list \<Rightarrow> real \<Rightarrow> error + 'm node_scheme list" where
  "scanX G nodes padding = scanX_loop G padding nodes 0"

definition scanY :: "'m geometry \<Rightarrow> 'm node_scheme list \<Rightarrow> real \<Rightarrow> error + 'm node_scheme list" where
  "scanY G nodes padding = scanY_loop G padding nodes 0"

text \<open>
  The same loops with a bound on the number of iterations: \<open>None\<close> when the bound is
  used up while the guard of the loop still holds.
\<close>

fun scanX_fuel ::
  "nat \<Rightarrow> 'm geometry \<Rightarrow> real \<Rightarrow> 'm node_scheme list \<Rightarrow> nat \<Rightarrow> (error + 'm node_scheme list) option" where
  "scanX_fuel 0 G padding nodes i = (if i < length nodes - 1 then None else Some (Inr nodes))"
| "scanX_fuel (Suc fuel) G padding nodes i =
     (if i < length nodes - 1 then
        (case scanX_body G padding nodes i of
           Inl e \<Rightarrow> Some (Inl e)
         | Inr (nodes', i') \<Rightarrow> scanX_fuel fuel G padding nodes' i')
      else Some (Inr nodes))"

fun scanY_fuel ::
  "nat \<Rightarrow> 'm geometry \<Rightarrow> real \<Rightarrow> 'm node_scheme list \<Rightarrow> nat \<Rightarrow> (error + 'm node_scheme list) option" where
  "scanY_fuel 0 G padding nodes i = (if i < length nodes - 1 then None else Some (Inr nodes))"
| "scanY_fuel (Suc fuel) G padding nodes i =
     (if i < length nodes - 1 then
        (case scanY_body G padding nodes i of
           Inl e \<Rightarrow> Some (Inl e)
         | Inr (nodes', i') \<Rightarrow> scanY_fuel fuel G padding nodes' i')
      else Some (Inr nodes))"

subsection \<open>\<^verbatim>\<open>pfs\<close>\<close>

text \<open>The first \<^verbatim>\<open>forEach\<close>: \<^verbatim>\<open>n.up = { x: n.x, y: n.y }\<close>.\<close>

definition stage :: "'m node_scheme \<Rightarrow> 'm node_scheme" where
  "stage n = n\<lparr>up := Some \<lparr>px = x n, py = y n\<rparr>\<rparr>"

text \<open>The last \<^verbatim>\<open>forEach\<close>: it throws at the first node without a staged position,
  and otherwise copies the staged position to the node and deletes it.\<close>

fun commit :: "'m node_scheme list \<Rightarrow> error + 'm node_scheme list" where
  "commit [] = Inr []"
| "commit (n # ns) =
     (case up n of
        None \<Rightarrow> Inl MissingStaged
      | Some u \<Rightarrow>
          (case commit ns of
             Inl e \<Rightarrow> Inl e
           | Inr ns' \<Rightarrow> Inr (n\<lparr>x := px u, y := py u, up := None\<rparr> # ns')))"

text \<open>
  The function handed to \<^verbatim>\<open>createFunction\<close>, on the node array of the graph and
  \<^verbatim>\<open>options.padding\<close> (0 when the caller passes no options). \<^verbatim>\<open>Array.prototype.sort\<close> with
  the comparator \<^verbatim>\<open>a.x - b.x\<close> is a stable sort on the key \<^verbatim>\<open>x\<close>, which is what \<open>sort_key\<close>
  computes. The result is the node array of the returned graph, or the error thrown.
\<close>

definition pfs :: "'m geometry \<Rightarrow> 'm node_scheme list \<Rightarrow> real \<Rightarrow> error + 'm node_scheme list" where
  "pfs G nodes padding =
     (let nodes1 = map stage nodes;
          nodes2 = sort_key x nodes1
      in case scanX G nodes2 padding of
           Inl e \<Rightarrow> Inl e
         | Inr nodes3 \<Rightarrow>
             (let nodes4 = sort_key y nodes3
              in case scanY G nodes4 padding of
                   Inl e \<Rightarrow> Inl e
                 | Inr nodes5 \<Rightarrow> commit nodes5))"

section \<open>A geometry to run the code on\<close>

text \<open>
  Modelled from the spec: the primitives \<^verbatim>\<open>overlap\<close>, \<^verbatim>\<open>vector\<close>, \<^verbatim>\<open>optimalVector\<close> and
  \<^verbatim>\<open>diff\<close> of \<^verbatim>\<open>agora-graph\<close> are missing from the sources. Following section 4.1 of the
  specification, nodes are boxes centred at their position: two nodes overlap when
  their boxes, widened by the padding, intersect on both axes; \<^verbatim>\<open>vector\<close> leads from the
  first position to the second; \<^verbatim>\<open>diff\<close> subtracts; and the optimal vector is the
  centre-to-centre vector stretched until the boxes no longer intersect.
\<close>

definition gapX :: "'m node_scheme \<Rightarrow> 'm node_scheme \<Rightarrow> real \<Rightarrow> real" where
  "gapX a b padding = (width a + width b) / 2 + padding"

definition gapY :: "'m node_scheme \<Rightarrow> 'm node_scheme \<Rightarrow> real \<Rightarrow> real" where
  "gapY a b padding = (height a + height b) / 2 + padding"

definition box_overlap :: "'m node_scheme \<Rightarrow> 'm node_scheme \<Rightarrow> real \<Rightarrow> bool" where
  "box_overlap a b padding \<longleftrightarrow>
     \<bar>x b - x a\<bar> < gapX a b padding \<and> \<bar>y b - y a\<bar> < gapY a b padding"

definition box_vector :: "'m node_scheme \<Rightarrow> 'm node_scheme \<Rightarrow> point" where
  "box_vector a b = \<lparr>px = x b - x a, py = y b - y a\<rparr>"

definition box_diff :: "point \<Rightarrow> point \<Rightarrow> point" where
  "box_diff u v = \<lparr>px = px u - px v, py = py u - py v\<rparr>"

definition stretch :: "real \<Rightarrow> real \<Rightarrow> real \<Rightarrow> real \<Rightarrow> real" where
  "stretch dx dy gx gy =
     (if dx = 0 \<and> dy = 0 then 1
      else if dx = 0 then gy / \<bar>dy\<bar>
      else if dy = 0 then gx / \<bar>dx\<bar>
      else min (gx / \<bar>dx\<bar>) (gy / \<bar>dy\<bar>))"

definition box_optimalVector :: "'m node_scheme \<Rightarrow> 'm node_scheme \<Rightarrow> real \<Rightarrow> point" where
  "box_optimalVector a b padding =
     (let dx = x b - x a; dy = y b - y a;
          t = stretch dx dy (gapX a b padding) (gapY a b padding)
      in \<lparr>px = t * dx, py = t * dy\<rparr>)"

definition box_geometry :: "'m geometry" where
  "box_geometry =
     \<lparr>overlap = box_overlap, vector = box_vector,
      optimalVector = box_optimalVector, diff = box_diff\<rparr>"

text \<open>Boxes of width and height 10 for the examples.\<close>

definition mk :: "real \<Rightarrow> real \<Rightarrow> node" where
  "mk a b = \<lparr>x = a, y = b, width = 10, height = 10, up = None\<rparr>"

text \<open>Three staged nodes in ascending order of \<open>x\<close>: the first two share \<open>x = 0\<close>, the
  third lies to their right and overlaps both.\<close>

definition ex_nodes :: "node list" where
  "ex_nodes = map stage [mk 0 0, mk 0 4, mk 1 4]"

text \<open>The same nodes after \<^verbatim>\<open>scanX\<close>, and after \<^verbatim>\<open>scanY\<close>.\<close>

definition ex_nodesX :: "node list" where
  "ex_nodesX = [stage (mk 0 0), stage (mk 0 4), (mk 1 4)\<lparr>up := Some \<lparr>px = 10, py = 4\<rparr>\<rparr>]"

definition ex_nodesY :: "node list" where
  "ex_nodesY = [stage (mk 0 0), (mk 0 4)\<lparr>up := Some \<lparr>px = 0, py = 10\<rparr>\<rparr>,
                (mk 1 4)\<lparr>up := Some \<lparr>px = 1, py = 10\<rparr>\<rparr>]"

text \<open>Four staged nodes in ascending order of \<open>x\<close>: three share \<open>x = 0\<close>, the fourth
  lies to their right and overlaps each of them.\<close>

definition ex_group :: "node list" where
  "ex_group = map stage [mk 0 0, mk 0 4, mk 0 8, mk 1 4]"

text \<open>An array whose second node has no staged position.\<close>

definition ex_unstaged :: "node list" where
  "ex_unstaged = [stage (mk 0 0), mk 1 4]"

text \<open>Three nodes that overlap pairwise, at different positions.\<close>

definition ex_three :: "node list" where
  "ex_three = [mk 0 0, mk 1 2, mk 3 1]"

section \<open>Both scans at once\<close>

text \<open>
  \<^verbatim>\<open>scanX\<close> and \<^verbatim>\<open>scanY\<close> are the same code up to the coordinate they read and
  write. The definitions below select between the two by an axis, so that a
  property of both scans is stated and proved once.
\<close>

datatype axis = AxisX | AxisY

definition coord :: "axis \<Rightarrow> 'm node_scheme \<Rightarrow> real" where
  "coord a n = (case a of AxisX \<Rightarrow> x n | AxisY \<Rightarrow> y n)"

definition part :: "axis \<Rightarrow> point \<Rightarrow> real" where
  "part a p = (case a of AxisX \<Rightarrow> px p | AxisY \<Rightarrow> py p)"

definition bump :: "axis \<Rightarrow> real \<Rightarrow> 'm node_scheme \<Rightarrow> 'm node_scheme" where
  "bump a d n = (case a of AxisX \<Rightarrow> bumpX d n | AxisY \<Rightarrow> bumpY d n)"

definition maxDelta :: "axis \<Rightarrow> 'm geometry \<Rightarrow> 'm node_scheme list \<Rightarrow> real \<Rightarrow> nat \<Rightarrow> nat \<Rightarrow> real" where
  "maxDelta a G nodes padding i k =
     (case a of AxisX \<Rightarrow> maxDeltaX G nodes padding i k | AxisY \<Rightarrow> maxDeltaY G nodes padding i k)"

definition scan_body ::
  "axis \<Rightarrow> 'm geometry \<Rightarrow> real \<Rightarrow> 'm node_scheme list \<Rightarrow> nat \<Rightarrow> error + ('m node_scheme list \<times> nat)" where
  "scan_body a G padding nodes i =
     (case a of AxisX \<Rightarrow> scanX_body G padding nodes i | AxisY \<Rightarrow> scanY_body G padding nodes i)"

definition scan_loop ::
  "axis \<Rightarrow> 'm geometry \<Rightarrow> real \<Rightarrow> 'm node_scheme list \<Rightarrow> nat \<Rightarrow> error + 'm node_scheme list" where
  "scan_loop a G padding nodes i =
     (case a of AxisX \<Rightarrow> scanX_loop G padding nodes i | AxisY \<Rightarrow> scanY_loop G padding nodes i)"

section \<open>Notions used in the statements\<close>

text \<open>
  What the scans need of the geometry. \<open>ascending\<close>: for two nodes in strictly ascending
  order on the axis, the delta on that axis does not point backwards.
  \<open>ignores_staged\<close>: \<^verbatim>\<open>delta\<close> does not read the staged position of the nodes.
\<close>

definition ascending :: "axis \<Rightarrow> 'm geometry \<Rightarrow> real \<Rightarrow> bool" where
  "ascending a G padding \<longleftrightarrow>
     (\<forall>n1 n2. coord a n1 < coord a n2 \<longrightarrow> 0 \<le> part a (delta G n1 n2 padding))"

definition ignores_staged :: "'m geometry \<Rightarrow> real \<Rightarrow> bool" where
  "ignores_staged G padding \<longleftrightarrow>
     (\<forall>n1 n2 u v. delta G (n1\<lparr>up := u\<rparr>) (n2\<lparr>up := v\<rparr>) padding = delta G n1 n2 padding)"

text \<open>
  The assumption of section 4.2 of the specification that deltas only add in the
  direction of the scan: for two nodes in strictly ascending order on an axis, the
  delta on that axis is not negative.
\<close>

definition pushes_ascending :: "'m geometry \<Rightarrow> real \<Rightarrow> bool" where
  "pushes_ascending G padding \<longleftrightarrow>
     (\<forall>n1 n2. (x n1 < x n2 \<longrightarrow> 0 \<le> px (delta G n1 n2 padding)) \<and>
              (y n1 < y n2 \<longrightarrow> 0 \<le> py (delta G n1 n2 padding)))"


text \<open>A node moved by \<open>dx\<close> and \<open>dy\<close>, as \<^verbatim>\<open>pfs\<close> returns it: without staged position.\<close>

definition moved :: "'m node_scheme \<Rightarrow> real \<Rightarrow> real \<Rightarrow> 'm node_scheme" where
  "moved n dx dy = n\<lparr>x := x n + dx, y := y n + dy, up := None\<rparr>"

text \<open>
  \<open>final_order\<close> lists the input nodes in the order in which \<^verbatim>\<open>pfs\<close> leaves the array:
  the node at index \<open>p\<close> of the result is the node at index \<open>p\<close> of \<open>final_order\<close>, moved.
\<close>

definition final_order :: "'m node_scheme list \<Rightarrow> 'm node_scheme list" where
  "final_order nodes = sort_key y (sort_key x nodes)"

section \<open>Basic facts\<close>

text \<open>More on what \<^verbatim>\<open>same\<close> returns.\<close>

lemma same_loop_le:
  "k \<le> length nodes - 1 \<Longrightarrow> same_loop nodes index callback k \<le> length nodes - 1"
proof (induction nodes index callback k rule: same_loop.induct)
  case (1 nodes index callback k)
  then show ?case
    by (subst same_loop.simps) auto
qed

lemma same_loop_run:
  "\<forall>t. index < t \<and> t \<le> k \<longrightarrow> callback (nodes ! index) (nodes ! t) \<Longrightarrow>
   \<forall>t. index < t \<and> t \<le> same_loop nodes index callback k \<longrightarrow> callback (nodes ! index) (nodes ! t)"
proof (induction nodes index callback k rule: same_loop.induct)
  case (1 nodes index callback k)
  show ?case
  proof (cases "k < length nodes - 1 \<and> callback (nodes ! index) (nodes ! (k + 1))")
    case True
    have "\<forall>t. index < t \<and> t \<le> k + 1 \<longrightarrow> callback (nodes ! index) (nodes ! t)"
      using True "1.prems" by (metis Suc_eq_plus1 le_Suc_eq)
    with True 1 have
      "\<forall>t. index < t \<and> t \<le> same_loop nodes index callback (k + 1) \<longrightarrow>
         callback (nodes ! index) (nodes ! t)"
      by blast
    with True show ?thesis by (subst same_loop.simps) simp
  next
    case False
    then have "same_loop nodes index callback k = k"
      by (subst same_loop.simps) auto
    with "1.prems" show ?thesis by simp
  qed
qed

lemma same_loop_stop:
  "same_loop nodes index callback k < length nodes - 1 \<Longrightarrow>
   \<not> callback (nodes ! index) (nodes ! (same_loop nodes index callback k + 1))"
proof (induction nodes index callback k rule: same_loop.induct)
  case (1 nodes index callback k)
  show ?case
  proof (cases "k < length nodes - 1 \<and> callback (nodes ! index) (nodes ! (k + 1))")
    case True
    then have eq: "same_loop nodes index callback k = same_loop nodes index callback (k + 1)"
      by (subst same_loop.simps) simp
    with True 1 show ?thesis by simp
  next
    case False
    then have eq: "same_loop nodes index callback k = k"
      by (subst same_loop.simps) auto
    with False "1.prems" show ?thesis by auto
  qed
qed

lemma same_le: "i \<le> length nodes - 1 \<Longrightarrow> same nodes i callback \<le> length nodes - 1"
  unfolding same_def by (rule same_loop_le)

lemma same_lt_length: "i < length nodes \<Longrightarrow> same nodes i callback < length nodes"
  using same_le[of i nodes callback] by linarith

lemma maxDelta_eq:
  "maxDelta a G nodes padding i k =
     foldl keep_larger 0
       (map (\<lambda>(m, j). part a (delta G (nodes ! m) (nodes ! j) padding))
          (group_pairs i k (length nodes)))"
  by (cases a) (simp_all add: maxDelta_def maxDeltaX_def maxDeltaY_def part_def foldl_map
      case_prod_unfold)

lemma scan_body_eq:
  "scan_body a G padding nodes i =
     (let k = same nodes i (\<lambda>n1 n2. coord a n1 = coord a n2);
          d = maxDelta a G nodes padding i k
      in if list_all (\<lambda>n. up n \<noteq> None) (drop (k + 1) nodes)
         then Inr (take (k + 1) nodes @ map (bump a d) (drop (k + 1) nodes), k + 1)
         else Inl MissingStaged)"
  by (cases a)
    (simp_all add: scan_body_def scanX_body_def scanY_body_def coord_def maxDelta_def bump_def
      pushX_closed pushY_closed Let_def)

lemma scan_loop_eq:
  "scan_loop a G padding nodes i =
     (if i < length nodes - 1 then
        (case scan_body a G padding nodes i of
           Inl e \<Rightarrow> Inl e
         | Inr (nodes', i') \<Rightarrow> scan_loop a G padding nodes' i')
      else Inr nodes)"
proof (cases a)
  case AxisX
  show ?thesis unfolding AxisX scan_loop_def scan_body_def axis.case by (rule scanX_loop.simps)
next
  case AxisY
  show ?thesis unfolding AxisY scan_loop_def scan_body_def axis.case by (rule scanY_loop.simps)
qed

lemma bump_zero [simp]: "bump a 0 n = n"
  by (cases a; cases "up n") (simp_all add: bump_def bumpX_def bumpY_def)

lemma bump_bump: "bump a d (bump a e n) = bump a (e + d) n"
  by (cases a; cases "up n") (simp_all add: bump_def bumpX_def bumpY_def add.assoc)

lemma bump_fields [simp]:
  "x (bump a d n) = x n" "y (bump a d n) = y n"
  "width (bump a d n) = width n" "height (bump a d n) = height n"
  "node.more (bump a d n) = node.more n"
  "coord b (bump a d n) = coord b n"
  "up (bump a d n) = None \<longleftrightarrow> up n = None"
  by (simp_all add: bump_def bumpX_def bumpY_def coord_def split: axis.split)

text \<open>One step of a scan that succeeds, node by node.\<close>

lemma scan_body_Inr:
  assumes "scan_body a G padding nodes i = Inr (nodes', i')"
  defines "k \<equiv> same nodes i (\<lambda>n1 n2. coord a n1 = coord a n2)"
  shows "i' = k + 1" and "length nodes' = length nodes"
    and "\<And>j. j < length nodes \<Longrightarrow>
           nodes' ! j = (if k < j then bump a (maxDelta a G nodes padding i k) (nodes ! j) else nodes ! j)"
    and "\<And>j. k < j \<Longrightarrow> j < length nodes \<Longrightarrow> up (nodes ! j) \<noteq> None"
proof -
  let ?d = "maxDelta a G nodes padding i k"
  from assms(1) have ok: "list_all (\<lambda>n. up n \<noteq> None) (drop (k + 1) nodes)"
    and res: "nodes' = take (k + 1) nodes @ map (bump a ?d) (drop (k + 1) nodes)"
    and i': "i' = k + 1"
    by (auto simp: scan_body_eq Let_def k_def split: if_splits)
  show "i' = k + 1" by (rule i')
  show "length nodes' = length nodes" by (simp add: res)
  show "nodes' ! j = (if k < j then bump a ?d (nodes ! j) else nodes ! j)" if "j < length nodes" for j
    using that by (auto simp: res nth_append min_def)
  show "up (nodes ! j) \<noteq> None" if "k < j" "j < length nodes" for j
  proof -
    from ok have "\<forall>t<length (drop (k + 1) nodes). up (drop (k + 1) nodes ! t) \<noteq> None"
      by (simp only: list_all_length)
    moreover have "j - (k + 1) < length (drop (k + 1) nodes)"
      using that by simp
    ultimately have "up (drop (k + 1) nodes ! (j - (k + 1))) \<noteq> None"
      by blast
    moreover have "drop (k + 1) nodes ! (j - (k + 1)) = nodes ! j"
      using that by simp
    ultimately show ?thesis by simp
  qed
qed

lemma scan_loop_frame:
  "scan_loop a G padding nodes i = Inr nodes' \<Longrightarrow>
   length nodes' = length nodes \<and> (\<forall>j<length nodes. \<exists>d. nodes' ! j = bump a d (nodes ! j))"
proof (induction "length nodes - i" arbitrary: nodes i rule: less_induct)
  case less
  show ?case
  proof (cases "i < length nodes - 1")
    case False
    with less.prems have "nodes' = nodes" by (simp add: scan_loop_eq[of a G padding nodes i])
    then show ?thesis by (auto intro: exI[of _ 0])
  next
    case True
    with less.prems obtain nodes1 i1 where
      b: "scan_body a G padding nodes i = Inr (nodes1, i1)" and
      r: "scan_loop a G padding nodes1 i1 = Inr nodes'"
      by (auto simp: scan_loop_eq[of a G padding nodes i] split: sum.splits)
    note s = scan_body_Inr[OF b]
    have "i < i1"
      using s(1) same_ge[of i nodes "\<lambda>n1 n2. coord a n1 = coord a n2"] by simp
    with True s(2) have "length nodes1 - i1 < length nodes - i" by simp
    from less.hyps[OF this r] s(2)
    have len: "length nodes' = length nodes"
      and ih: "\<forall>j<length nodes. \<exists>d. nodes' ! j = bump a d (nodes1 ! j)" by simp_all
    have "\<exists>d. nodes' ! j = bump a d (nodes ! j)" if "j < length nodes" for j
    proof -
      from ih that obtain d where "nodes' ! j = bump a d (nodes1 ! j)" by blast
      with s(3)[OF that] show ?thesis
        by (cases "same nodes i (\<lambda>n1 n2. coord a n1 = coord a n2) < j")
          (auto simp: bump_bump)
    qed
    with len show ?thesis by blast
  qed
qed

lemma scan_axis_simps:
  "scan_body AxisX = scanX_body" "scan_body AxisY = scanY_body"
  "scan_loop AxisX = scanX_loop" "scan_loop AxisY = scanY_loop"
  "maxDelta AxisX = maxDeltaX" "maxDelta AxisY = maxDeltaY"
  "bump AxisX = bumpX" "bump AxisY = bumpY"
  "coord AxisX = x" "coord AxisY = y"
  "part AxisX = px" "part AxisY = py"
  by (simp_all add: fun_eq_iff scan_body_def scan_loop_def maxDelta_def bump_def coord_def part_def)

section \<open>Running the examples\<close>

text \<open>The equations that evaluate the functions on the examples.\<close>

lemmas run_simps = scanX_def scanY_def scanX_loop.simps scanY_loop.simps scanX_body_def
  scanY_body_def same_def same_loop.simps pushX_closed pushY_closed bumpX_def bumpY_def
  maxDeltaX_def maxDeltaY_def group_pairs_def keep_larger_def delta_def box_geometry_def
  box_overlap_def box_vector_def box_diff_def box_optimalVector_def stretch_def gapX_def
  gapY_def mk_def stage_def pfs_def Let_def upt_rec ex_nodes_def ex_nodesX_def ex_nodesY_def
  ex_unstaged_def ex_group_def

lemma ex_scanX_body: "scanX_body box_geometry 0 ex_nodes 0 = Inr (ex_nodesX, 2)"
  by (simp add: run_simps)

lemma ex_scanY_body: "scanY_body box_geometry 0 ex_nodes 0 = Inr (ex_nodesY, 1)"
  by (simp add: run_simps)

lemma ex_scanX: "scanX box_geometry ex_nodes 0 = Inr ex_nodesX"
  by (simp add: run_simps)

lemma ex_scanY: "scanY box_geometry ex_nodes 0 = Inr ex_nodesY"
  by (simp add: run_simps)



section \<open>Termination of the scans\<close>

text \<open>The commit loop on an array in which every node is staged.\<close>

lemma commit_staged:
  "\<forall>n\<in>set ns. up n \<noteq> None \<Longrightarrow>
   commit ns = Inr (map (\<lambda>n. n\<lparr>x := px (the (up n)), y := py (the (up n)), up := None\<rparr>) ns)"
  by (induction ns) auto

text \<open>
  Whatever the geometry, \<^verbatim>\<open>pfs\<close> itself returns: it stages every node before the scans,
  the scans keep the staged positions, and so neither a scan nor the commit throws.
\<close>

lemma scan_loop_returns:
  "\<forall>n\<in>set nodes. up n \<noteq> None \<Longrightarrow>
   \<exists>nodes'. scan_loop a G padding nodes i = Inr nodes' \<and> length nodes' = length nodes \<and>
     (\<forall>n\<in>set nodes'. up n \<noteq> None)"
proof (induction "length nodes - i" arbitrary: nodes i rule: less_induct)
  case less
  note staged = less.prems
  show ?case
  proof (cases "i < length nodes - 1")
    case False
    with staged show ?thesis by (simp add: scan_loop_eq[of a G padding nodes i])
  next
    case True
    define k where "k = same nodes i (\<lambda>n1 n2. coord a n1 = coord a n2)"
    define D where "D = maxDelta a G nodes padding i k"
    define nodes1 where "nodes1 = take (k + 1) nodes @ map (bump a D) (drop (k + 1) nodes)"
    have ik: "i \<le> k" unfolding k_def by (rule same_ge)
    have ok: "list_all (\<lambda>n. up n \<noteq> None) (drop (k + 1) nodes)"
      using staged by (auto simp: list_all_iff dest: in_set_dropD)
    have b: "scan_body a G padding nodes i = Inr (nodes1, k + 1)"
      using ok by (simp add: scan_body_eq Let_def k_def[symmetric] D_def nodes1_def)
    have len1: "length nodes1 = length nodes" by (simp add: nodes1_def)
    have staged1: "\<forall>n\<in>set nodes1. up n \<noteq> None"
    proof
      fix n assume "n \<in> set nodes1"
      then consider "n \<in> set (take (k + 1) nodes)"
        | m where "m \<in> set (drop (k + 1) nodes)" "n = bump a D m"
        by (auto simp: nodes1_def)
      then show "up n \<noteq> None"
      proof cases
        case 1
        then have "n \<in> set nodes" by (rule in_set_takeD)
        with staged show ?thesis by blast
      next
        case 2
        then have "m \<in> set nodes" by (auto dest: in_set_dropD)
        with staged have "up m \<noteq> None" by blast
        with 2 show ?thesis by (simp only: bump_fields not_False_eq_True)
      qed
    qed
    have "length nodes1 - (k + 1) < length nodes - i" using True ik len1 by simp
    from less.hyps[OF this staged1] len1 b True show ?thesis
      by (simp add: scan_loop_eq[of a G padding nodes i])
  qed
qed

lemma pfs_returns: "\<exists>out. pfs G nodes padding = Inr out \<and> length out = length nodes"
proof -
  have "\<forall>n\<in>set (sort_key x (map stage nodes)). up n \<noteq> None"
    by (auto simp: stage_def)
  from scan_loop_returns[OF this, of AxisX G padding 0] obtain nodes3 where
    X: "scanX G (sort_key x (map stage nodes)) padding = Inr nodes3"
    and l3: "length nodes3 = length nodes" and s3: "\<forall>n\<in>set nodes3. up n \<noteq> None"
    by (auto simp: scanX_def scan_axis_simps)
  from s3 have "\<forall>n\<in>set (sort_key y nodes3). up n \<noteq> None" by simp
  from scan_loop_returns[OF this, of AxisY G padding 0] obtain nodes5 where
    Y: "scanY G (sort_key y nodes3) padding = Inr nodes5"
    and l5: "length nodes5 = length nodes" and s5: "\<forall>n\<in>set nodes5. up n \<noteq> None"
    by (auto simp: scanY_def scan_axis_simps l3)
  from commit_staged[OF s5] X Y l5 show ?thesis
    by (simp add: pfs_def Let_def)
qed


lemma scanX_fuel_enough:
  "length nodes - i \<le> fuel \<Longrightarrow>
   scanX_fuel fuel G padding nodes i = Some (scanX_loop G padding nodes i)"
proof (induction fuel arbitrary: nodes i)
  case 0
  then show ?case by (simp add: scanX_loop.simps[of G padding nodes i])
next
  case (Suc fuel)
  show ?case
  proof (cases "i < length nodes - 1")
    case False
    then show ?thesis by (simp add: scanX_loop.simps[of G padding nodes i])
  next
    case True
    show ?thesis
    proof (cases "scanX_body G padding nodes i")
      case (Inl e)
      with True show ?thesis by (simp add: scanX_loop.simps[of G padding nodes i])
    next
      case (Inr r)
      obtain nodes' i' where r: "r = (nodes', i')" by (cases r)
      note b = Inr[unfolded r]
      have "i < i'"
        using scanX_body_Inr(1)[OF b] same_ge[of i nodes "\<lambda>n1 n2. x n1 = x n2"] by simp
      with Suc.prems scanX_body_Inr(2)[OF b] have "length nodes' - i' \<le> fuel" by simp
      from Suc.IH[OF this] True b show ?thesis
        by (simp add: scanX_loop.simps[of G padding nodes i])
    qed
  qed
qed

lemma scanY_fuel_enough:
  "length nodes - i \<le> fuel \<Longrightarrow>
   scanY_fuel fuel G padding nodes i = Some (scanY_loop G padding nodes i)"
proof (induction fuel arbitrary: nodes i)
  case 0
  then show ?case by (simp add: scanY_loop.simps[of G padding nodes i])
next
  case (Suc fuel)
  show ?case
  proof (cases "i < length nodes - 1")
    case False
    then show ?thesis by (simp add: scanY_loop.simps[of G padding nodes i])
  next
    case True
    show ?thesis
    proof (cases "scanY_body G padding nodes i")
      case (Inl e)
      with True show ?thesis by (simp add: scanY_loop.simps[of G padding nodes i])
    next
      case (Inr r)
      obtain nodes' i' where r: "r = (nodes', i')" by (cases r)
      note b = Inr[unfolded r]
      have "i < i'"
        using scanY_body_Inr(1)[OF b] same_ge[of i nodes "\<lambda>n1 n2. y n1 = y n2"] by simp
      with Suc.prems scanY_body_Inr(2)[OF b] have "length nodes' - i' \<le> fuel" by simp
      from Suc.IH[OF this] True b show ?thesis
        by (simp add: scanY_loop.simps[of G padding nodes i])
    qed
  qed
qed

text \<open>
  Claim C10. For a cursor \<open>i\<close> with \<open>i < nodes.length - 1\<close>, \<^verbatim>\<open>same(nodes, i, cb)\<close> returns
  a \<open>k\<close> with \<open>i \<le> k \<le> nodes.length - 1\<close>, so the next cursor \<open>k + 1\<close> is strictly
  greater than \<open>i\<close>; and \<^verbatim>\<open>scanX\<close> and \<^verbatim>\<open>scanY\<close> finish within \<open>nodes.length\<close>
  iterations of their loop: run with that bound, the loops return what the unbounded
  loops return. The loops themselves are total functions, by the termination proofs
  given with their definitions, and \<^verbatim>\<open>pfs\<close> returns a result for every node list.
\<close>

theorem scans_terminate:
  "(i < length nodes - 1 \<longrightarrow>
      i \<le> same nodes i callback \<and> same nodes i callback \<le> length nodes - 1 \<and>
      i < same nodes i callback + 1)
   \<and> scanX_fuel (length nodes) G padding nodes 0 = Some (scanX G nodes padding)
   \<and> scanY_fuel (length nodes) G padding nodes 0 = Some (scanY G nodes padding)
   \<and> (\<exists>out. pfs G nodes padding = Inr out \<and> length out = length nodes)"
proof (intro conjI impI)
  assume "i < length nodes - 1"
  then show "same nodes i callback \<le> length nodes - 1"
    by (intro same_le) simp
  show "i \<le> same nodes i callback" by (rule same_ge)
  then show "i < same nodes i callback + 1" by simp
next
  show "scanX_fuel (length nodes) G padding nodes 0 = Some (scanX G nodes padding)"
    unfolding scanX_def by (rule scanX_fuel_enough) simp
  show "scanY_fuel (length nodes) G padding nodes 0 = Some (scanY G nodes padding)"
    unfolding scanY_def by (rule scanY_fuel_enough) simp
  show "\<exists>out. pfs G nodes padding = Inr out \<and> length out = length nodes"
    by (rule pfs_returns)
qed

theorem scans_terminate_witness:
  "(0::nat) < length ex_nodes - 1 \<and>
   0 \<le> same ex_nodes 0 (\<lambda>n1 n2. x n1 = x n2) \<and>
   same ex_nodes 0 (\<lambda>n1 n2. x n1 = x n2) \<le> length ex_nodes - 1 \<and>
   0 < same ex_nodes 0 (\<lambda>n1 n2. x n1 = x n2) + 1 \<and>
   scanX_fuel (length ex_nodes) box_geometry 0 ex_nodes 0 = Some (scanX box_geometry ex_nodes 0) \<and>
   scanY_fuel (length ex_nodes) box_geometry 0 ex_nodes 0 = Some (scanY box_geometry ex_nodes 0) \<and>
   (\<exists>out. pfs box_geometry ex_nodes 0 = Inr out \<and> length out = length ex_nodes)"
proof -
  have h: "(0::nat) < length ex_nodes - 1" by (simp add: ex_nodes_def)
  from scans_terminate[of 0 ex_nodes "\<lambda>n1 n2. x n1 = x n2" box_geometry 0] h
  show ?thesis by simp
qed

section \<open>One iteration of a scan\<close>

text \<open>
  Claim C3. An iteration of \<^verbatim>\<open>scanX\<close> (of \<^verbatim>\<open>scanY\<close>) that does not throw, on the group
  from \<open>i\<close> to \<open>k\<close>, adds \<^verbatim>\<open>maxDelta\<close> to the staged \<open>x\<close> (\<open>y\<close>) of exactly the nodes
  with index greater than \<open>k\<close>; every node with index up to \<open>k\<close>, the group included,
  is left as it was. The next cursor is \<open>k + 1\<close>.
\<close>

theorem push_step_beyond_group:
  "(scanX_body G padding nodes i = Inr (nodesX, iX) \<longrightarrow>
      (let k = same nodes i (\<lambda>n1 n2. x n1 = x n2);
           maxDelta = maxDeltaX G nodes padding i k
       in iX = k + 1 \<and> length nodesX = length nodes \<and>
          (\<forall>j<length nodes.
             if k < j
             then \<exists>u. up (nodes ! j) = Some u \<and>
                      nodesX ! j = (nodes ! j)\<lparr>up := Some (u\<lparr>px := px u + maxDelta\<rparr>)\<rparr>
             else nodesX ! j = nodes ! j)))
   \<and> (scanY_body G padding nodes i = Inr (nodesY, iY) \<longrightarrow>
      (let k = same nodes i (\<lambda>n1 n2. y n1 = y n2);
           maxDelta = maxDeltaY G nodes padding i k
       in iY = k + 1 \<and> length nodesY = length nodes \<and>
          (\<forall>j<length nodes.
             if k < j
             then \<exists>u. up (nodes ! j) = Some u \<and>
                      nodesY ! j = (nodes ! j)\<lparr>up := Some (u\<lparr>py := py u + maxDelta\<rparr>)\<rparr>
             else nodesY ! j = nodes ! j)))"
proof (intro conjI impI)
  assume b: "scanX_body G padding nodes i = Inr (nodesX, iX)"
  note s = scan_body_Inr[of AxisX, unfolded scan_axis_simps, OF b]
  show "let k = same nodes i (\<lambda>n1 n2. x n1 = x n2);
           maxDelta = maxDeltaX G nodes padding i k
       in iX = k + 1 \<and> length nodesX = length nodes \<and>
          (\<forall>j<length nodes.
             if k < j
             then \<exists>u. up (nodes ! j) = Some u \<and>
                      nodesX ! j = (nodes ! j)\<lparr>up := Some (u\<lparr>px := px u + maxDelta\<rparr>)\<rparr>
             else nodesX ! j = nodes ! j)"
    unfolding Let_def
  proof (intro conjI allI impI)
    fix j assume j: "j < length nodes"
    show "if same nodes i (\<lambda>n1 n2. x n1 = x n2) < j
          then \<exists>u. up (nodes ! j) = Some u \<and>
                 nodesX ! j = (nodes ! j)\<lparr>up := Some (u\<lparr>px := px u +
                    maxDeltaX G nodes padding i (same nodes i (\<lambda>n1 n2. x n1 = x n2))\<rparr>)\<rparr>
          else nodesX ! j = nodes ! j"
      using s(3)[OF j] s(4)[OF _ j] by (auto simp: bumpX_def)
  qed (use s in simp_all)
next
  assume b: "scanY_body G padding nodes i = Inr (nodesY, iY)"
  note s = scan_body_Inr[of AxisY, unfolded scan_axis_simps, OF b]
  show "let k = same nodes i (\<lambda>n1 n2. y n1 = y n2);
           maxDelta = maxDeltaY G nodes padding i k
       in iY = k + 1 \<and> length nodesY = length nodes \<and>
          (\<forall>j<length nodes.
             if k < j
             then \<exists>u. up (nodes ! j) = Some u \<and>
                      nodesY ! j = (nodes ! j)\<lparr>up := Some (u\<lparr>py := py u + maxDelta\<rparr>)\<rparr>
             else nodesY ! j = nodes ! j)"
    unfolding Let_def
  proof (intro conjI allI impI)
    fix j assume j: "j < length nodes"
    show "if same nodes i (\<lambda>n1 n2. y n1 = y n2) < j
          then \<exists>u. up (nodes ! j) = Some u \<and>
                 nodesY ! j = (nodes ! j)\<lparr>up := Some (u\<lparr>py := py u +
                    maxDeltaY G nodes padding i (same nodes i (\<lambda>n1 n2. y n1 = y n2))\<rparr>)\<rparr>
          else nodesY ! j = nodes ! j"
      using s(3)[OF j] s(4)[OF _ j] by (auto simp: bumpY_def)
  qed (use s in simp_all)
qed

theorem push_step_beyond_group_witness:
  "scanX_body box_geometry 0 ex_nodes 0 = Inr (ex_nodesX, 2) \<and>
   scanY_body box_geometry 0 ex_nodes 0 = Inr (ex_nodesY, 1) \<and>
   (let k = same ex_nodes 0 (\<lambda>n1 n2. x n1 = x n2);
        maxDelta = maxDeltaX box_geometry ex_nodes 0 0 k
    in 2 = k + 1 \<and> length ex_nodesX = length ex_nodes \<and>
       (\<forall>j<length ex_nodes.
          if k < j
          then \<exists>u. up (ex_nodes ! j) = Some u \<and>
                   ex_nodesX ! j = (ex_nodes ! j)\<lparr>up := Some (u\<lparr>px := px u + maxDelta\<rparr>)\<rparr>
          else ex_nodesX ! j = ex_nodes ! j)) \<and>
   (let k = same ex_nodes 0 (\<lambda>n1 n2. y n1 = y n2);
        maxDelta = maxDeltaY box_geometry ex_nodes 0 0 k
    in 1 = k + 1 \<and> length ex_nodesY = length ex_nodes \<and>
       (\<forall>j<length ex_nodes.
          if k < j
          then \<exists>u. up (ex_nodes ! j) = Some u \<and>
                   ex_nodesY ! j = (ex_nodes ! j)\<lparr>up := Some (u\<lparr>py := py u + maxDelta\<rparr>)\<rparr>
          else ex_nodesY ! j = ex_nodes ! j))"
  using push_step_beyond_group[of box_geometry 0 ex_nodes 0 ex_nodesX 2 ex_nodesY 1]
    ex_scanX_body ex_scanY_body
  by blast

section \<open>The choice of \<^verbatim>\<open>maxDelta\<close>\<close>



lemma set_group_pairs:
  "set (group_pairs i k n) = {(m, j). i \<le> m \<and> m \<le> k \<and> k < j \<and> j < n}"
  by (auto simp: group_pairs_def)



section \<open>A missing staged position\<close>

lemma commit_missing: "n \<in> set nodes \<Longrightarrow> up n = None \<Longrightarrow> commit nodes = Inl MissingStaged"
  by (induction nodes) (auto split: option.splits sum.splits)

lemma scan_body_missing:
  assumes "same nodes i (\<lambda>n1 n2. coord a n1 = coord a n2) < j" "j < length nodes"
    "up (nodes ! j) = None"
  shows "scan_body a G padding nodes i = Inl MissingStaged"
proof (cases "scan_body a G padding nodes i")
  case (Inl e)
  then show ?thesis by (cases e) simp
next
  case (Inr r)
  obtain nodes' i' where "r = (nodes', i')" by (cases r)
  with Inr scan_body_Inr(4)[of a G padding nodes i nodes' i' j] assms show ?thesis by simp
qed

text \<open>
  Claim C8. When the push step of an iteration of \<^verbatim>\<open>scanX\<close> or \<^verbatim>\<open>scanY\<close> reaches a node
  (an index beyond the group) that has no staged position, the iteration and the whole
  scan end with the error instead of skipping the node; and so does the commit loop when
  any node of the array has none. \<^verbatim>\<open>pfs\<close> hands on the error of either scan and of the
  commit, as its definition shows.
\<close>

theorem missing_staged_position_throws:
  "(i < length nodes - 1 \<and> same nodes i (\<lambda>n1 n2. x n1 = x n2) < j \<and> j < length nodes \<and>
      up (nodes ! j) = None \<longrightarrow>
      scanX_body G padding nodes i = Inl MissingStaged \<and>
      scanX_loop G padding nodes i = Inl MissingStaged)
   \<and> (i < length nodes - 1 \<and> same nodes i (\<lambda>n1 n2. y n1 = y n2) < j \<and> j < length nodes \<and>
      up (nodes ! j) = None \<longrightarrow>
      scanY_body G padding nodes i = Inl MissingStaged \<and>
      scanY_loop G padding nodes i = Inl MissingStaged)
   \<and> (n \<in> set nodes \<and> up n = None \<longrightarrow> commit nodes = Inl MissingStaged)"
proof (intro conjI impI; (elim conjE)?)
  assume a: "i < length nodes - 1" "same nodes i (\<lambda>n1 n2. x n1 = x n2) < j" "j < length nodes"
      "up (nodes ! j) = None"
  from scan_body_missing[of nodes i AxisX j G padding] a(2-4)
  show b: "scanX_body G padding nodes i = Inl MissingStaged" by (simp add: scan_axis_simps)
  with a(1) show "scanX_loop G padding nodes i = Inl MissingStaged"
    by (simp add: scanX_loop.simps[of G padding nodes i])
next
  assume a: "i < length nodes - 1" "same nodes i (\<lambda>n1 n2. y n1 = y n2) < j" "j < length nodes"
      "up (nodes ! j) = None"
  from scan_body_missing[of nodes i AxisY j G padding] a(2-4)
  show b: "scanY_body G padding nodes i = Inl MissingStaged" by (simp add: scan_axis_simps)
  with a(1) show "scanY_loop G padding nodes i = Inl MissingStaged"
    by (simp add: scanY_loop.simps[of G padding nodes i])
next
  assume "n \<in> set nodes" "up n = None"
  then show "commit nodes = Inl MissingStaged" by (rule commit_missing)
qed

theorem missing_staged_position_throws_witness:
  "(0::nat) < length ex_unstaged - 1 \<and>
   same ex_unstaged 0 (\<lambda>n1 n2. x n1 = x n2) < 1 \<and>
   same ex_unstaged 0 (\<lambda>n1 n2. y n1 = y n2) < 1 \<and>
   1 < length ex_unstaged \<and> up (ex_unstaged ! 1) = None \<and>
   mk 1 4 \<in> set ex_unstaged \<and> up (mk 1 4) = None \<and>
   scanX_body box_geometry 0 ex_unstaged 0 = Inl MissingStaged \<and>
   scanX_loop box_geometry 0 ex_unstaged 0 = Inl MissingStaged \<and>
   scanY_body box_geometry 0 ex_unstaged 0 = Inl MissingStaged \<and>
   scanY_loop box_geometry 0 ex_unstaged 0 = Inl MissingStaged \<and>
   commit ex_unstaged = Inl MissingStaged"
proof -
  have h: "(0::nat) < length ex_unstaged - 1"
    "same ex_unstaged 0 (\<lambda>n1 n2. x n1 = x n2) < 1"
    "same ex_unstaged 0 (\<lambda>n1 n2. y n1 = y n2) < 1"
    "1 < length ex_unstaged" "up (ex_unstaged ! 1) = None"
    "mk 1 4 \<in> set ex_unstaged" "up (mk 1 4) = None"
    by (simp_all add: ex_unstaged_def same_def same_loop.simps mk_def stage_def)
  from missing_staged_position_throws[of 0 ex_unstaged 1 box_geometry 0 "mk 1 4"] h
  show ?thesis by blast
qed

section \<open>What a scan may change\<close>

text \<open>
  Claim C9. A run of \<^verbatim>\<open>scanX\<close> that returns leaves the array with the same length and
  every node equal to what it was except for its staged position, whose \<open>y\<close> is
  unchanged (and which is present exactly when it was before): only the staged \<open>x\<close>
  can differ. The position \<open>x\<close>, \<open>y\<close>, the extent and every further field are as
  before. Likewise \<^verbatim>\<open>scanY\<close> can change only the staged \<open>y\<close>.
\<close>

theorem scans_touch_only_their_staged_coordinate:
  "(scanX G nodes padding = Inr nodesX \<longrightarrow>
      length nodesX = length nodes \<and>
      (\<forall>j<length nodes. nodesX ! j = (nodes ! j)\<lparr>up := up (nodesX ! j)\<rparr> \<and>
         map_option py (up (nodesX ! j)) = map_option py (up (nodes ! j))))
   \<and> (scanY G nodes padding = Inr nodesY \<longrightarrow>
      length nodesY = length nodes \<and>
      (\<forall>j<length nodes. nodesY ! j = (nodes ! j)\<lparr>up := up (nodesY ! j)\<rparr> \<and>
         map_option px (up (nodesY ! j)) = map_option px (up (nodes ! j))))"
proof (intro conjI impI allI)
  assume r: "scanX G nodes padding = Inr nodesX"
  note f = scan_loop_frame[of AxisX G padding nodes 0 nodesX, unfolded scan_axis_simps,
      OF r[unfolded scanX_def]]
  from f show "length nodesX = length nodes" by simp
  fix j assume "j < length nodes"
  with f obtain d where "nodesX ! j = bumpX d (nodes ! j)" by blast
  then show "nodesX ! j = (nodes ! j)\<lparr>up := up (nodesX ! j)\<rparr>"
    and "map_option py (up (nodesX ! j)) = map_option py (up (nodes ! j))"
    by (simp_all add: bumpX_def option.map_comp comp_def option.map_ident)
next
  assume r: "scanY G nodes padding = Inr nodesY"
  note f = scan_loop_frame[of AxisY G padding nodes 0 nodesY, unfolded scan_axis_simps,
      OF r[unfolded scanY_def]]
  from f show "length nodesY = length nodes" by simp
  fix j assume "j < length nodes"
  with f obtain d where "nodesY ! j = bumpY d (nodes ! j)" by blast
  then show "nodesY ! j = (nodes ! j)\<lparr>up := up (nodesY ! j)\<rparr>"
    and "map_option px (up (nodesY ! j)) = map_option px (up (nodes ! j))"
    by (simp_all add: bumpY_def option.map_comp comp_def option.map_ident)
qed

theorem scans_touch_only_their_staged_coordinate_witness:
  "scanX box_geometry ex_nodes 0 = Inr ex_nodesX \<and>
   scanY box_geometry ex_nodes 0 = Inr ex_nodesY \<and>
   length ex_nodesX = length ex_nodes \<and> length ex_nodesY = length ex_nodes \<and>
   ex_nodesX ! 2 = (ex_nodes ! 2)\<lparr>up := up (ex_nodesX ! 2)\<rparr> \<and>
   map_option py (up (ex_nodesX ! 2)) = map_option py (up (ex_nodes ! 2)) \<and>
   ex_nodesY ! 2 = (ex_nodes ! 2)\<lparr>up := up (ex_nodesY ! 2)\<rparr> \<and>
   map_option px (up (ex_nodesY ! 2)) = map_option px (up (ex_nodes ! 2))"
proof -
  have 2: "2 < length ex_nodes" by (simp add: ex_nodes_def)
  from scans_touch_only_their_staged_coordinate[of box_geometry ex_nodes 0 ex_nodesX ex_nodesY]
    ex_scanX ex_scanY 2
  show ?thesis by blast
qed

section \<open>Input without overlap\<close>

text \<open>Groups of a sorted array.\<close>

lemma same_group:
  assumes "i \<le> m" "m \<le> same nodes i (\<lambda>n1 n2. coord a n1 = coord a n2)"
  shows "coord a (nodes ! m) = coord a (nodes ! i)"
proof (cases "m = i")
  case False
  have "\<forall>t. i < t \<and> t \<le> same_loop nodes i (\<lambda>n1 n2. coord a n1 = coord a n2) i \<longrightarrow>
          coord a (nodes ! i) = coord a (nodes ! t)"
    by (rule same_loop_run) simp
  moreover from assms False
  have "i < m \<and> m \<le> same_loop nodes i (\<lambda>n1 n2. coord a n1 = coord a n2) i"
    by (simp add: same_def)
  ultimately show ?thesis by metis
qed simp

lemma beyond_group:
  assumes srt: "sorted (map (coord a) nodes)"
    and m: "i \<le> m" "m \<le> same nodes i (\<lambda>n1 n2. coord a n1 = coord a n2)"
    and j: "same nodes i (\<lambda>n1 n2. coord a n1 = coord a n2) < j" "j < length nodes"
  shows "coord a (nodes ! m) < coord a (nodes ! j)"
proof -
  let ?k = "same nodes i (\<lambda>n1 n2. coord a n1 = coord a n2)"
  from j have k: "?k < length nodes - 1" by simp
  then have ne: "coord a (nodes ! i) \<noteq> coord a (nodes ! (?k + 1))"
    unfolding same_def by (rule same_loop_stop)
  have le: "\<And>p q. p \<le> q \<Longrightarrow> q < length nodes \<Longrightarrow> coord a (nodes ! p) \<le> coord a (nodes ! q)"
    using srt by (simp add: sorted_iff_nth_mono)
  have "i \<le> ?k + 1" using m by simp
  moreover have "?k + 1 < length nodes" using j by simp
  ultimately have "coord a (nodes ! i) \<le> coord a (nodes ! (?k + 1))" by (rule le)
  with ne have "coord a (nodes ! i) < coord a (nodes ! (?k + 1))" by simp
  also have "\<dots> \<le> coord a (nodes ! j)" using le[of "?k + 1" j] j by simp
  finally show ?thesis using same_group[OF m] by simp
qed

lemma keep_larger_zeros: "\<forall>d\<in>set ds. d = 0 \<Longrightarrow> foldl keep_larger 0 ds = 0"
  by (induction ds) (simp_all add: keep_larger_def)

lemma bump_zero_id [simp]: "bump a 0 = id"
  by (simp add: fun_eq_iff)

lemma scan_loop_no_overlap:
  assumes staged: "\<forall>n\<in>set nodes. up n \<noteq> None"
    and srt: "sorted (map (coord a) nodes)"
    and free: "\<forall>m<length nodes. \<forall>j<length nodes.
        coord a (nodes ! m) \<noteq> coord a (nodes ! j) \<longrightarrow> \<not> overlap G (nodes ! m) (nodes ! j) padding"
  shows "scan_loop a G padding nodes i = Inr nodes"
proof (induction "length nodes - i" arbitrary: i rule: less_induct)
  case less
  show ?case
  proof (cases "i < length nodes - 1")
    case False
    then show ?thesis by (simp add: scan_loop_eq[of a G padding nodes i])
  next
    case True
    let ?k = "same nodes i (\<lambda>n1 n2. coord a n1 = coord a n2)"
    have "\<forall>d\<in>set (map (\<lambda>(m, j). part a (delta G (nodes ! m) (nodes ! j) padding))
          (group_pairs i ?k (length nodes))). d = 0"
    proof
      fix d assume "d \<in> set (map (\<lambda>(m, j). part a (delta G (nodes ! m) (nodes ! j) padding))
          (group_pairs i ?k (length nodes)))"
      then obtain m j where d: "d = part a (delta G (nodes ! m) (nodes ! j) padding)"
        and mj: "i \<le> m" "m \<le> ?k" "?k < j" "j < length nodes"
        by (auto simp: group_pairs_def)
      from beyond_group[OF srt mj] have "coord a (nodes ! m) \<noteq> coord a (nodes ! j)" by simp
      with free mj have "\<not> overlap G (nodes ! m) (nodes ! j) padding" by simp
      with d show "d = 0" by (cases a) (simp_all add: delta_def part_def)
    qed
    then have z: "maxDelta a G nodes padding i ?k = 0"
      unfolding maxDelta_eq by (rule keep_larger_zeros)
    have ok: "list_all (\<lambda>n. up n \<noteq> None) (drop (?k + 1) nodes)"
      using staged by (auto simp: list_all_iff dest: in_set_dropD)
    have b: "scan_body a G padding nodes i = Inr (nodes, ?k + 1)"
      using ok z by (simp add: scan_body_eq Let_def)
    have "i < ?k + 1" using same_ge[of i nodes "\<lambda>n1 n2. coord a n1 = coord a n2"] by simp
    with True have "length nodes - (?k + 1) < length nodes - i" by simp
    from less[OF this] True b show ?thesis
      by (simp add: scan_loop_eq[of a G padding nodes i])
  qed
qed

lemma insort_key_map:
  "(\<And>n. k (g n) = k n) \<Longrightarrow> insort_key k (g a) (map g xs) = map g (insort_key k a xs)"
  by (induction xs) simp_all

lemma sort_key_map:
  "(\<And>n. k (g n) = k n) \<Longrightarrow> sort_key k (map g xs) = map g (sort_key k xs)"
  by (induction xs) (simp_all add: insort_key_map)

lemma stage_fields [simp]:
  "x (stage n) = x n" "y (stage n) = y n" "width (stage n) = width n"
  "height (stage n) = height n" "up (stage n) = Some \<lparr>px = x n, py = y n\<rparr>"
  "coord a (stage n) = coord a n"
  by (simp_all add: stage_def coord_def split: axis.split)

lemma map_clear_unstaged:
  "\<forall>n\<in>set ns. up n = None \<Longrightarrow> map (\<lambda>n. n\<lparr>up := None\<rparr>) ns = ns"
  by (induction ns) simp_all

lemma commit_stage: "commit (map stage ns) = Inr (map (\<lambda>n. n\<lparr>up := None\<rparr>) ns)"
  by (induction ns) (simp_all add: stage_def)

lemma pfs_no_overlap:
  assumes "\<forall>a\<in>set nodes. \<forall>b\<in>set nodes.
      x a \<noteq> x b \<or> y a \<noteq> y b \<longrightarrow> \<not> overlap G (stage a) (stage b) padding"
  shows "pfs G nodes padding = Inr (map (\<lambda>n. n\<lparr>up := None\<rparr>) (sort_key y (sort_key x nodes)))"
proof -
  have free: "\<forall>m<length zs. \<forall>j<length zs.
        coord a (map stage zs ! m) \<noteq> coord a (map stage zs ! j) \<longrightarrow>
        \<not> overlap G (map stage zs ! m) (map stage zs ! j) padding"
    if "set zs = set nodes" for zs a
  proof (intro allI impI)
    fix m j assume mj: "m < length zs" "j < length zs"
      and ne: "coord a (map stage zs ! m) \<noteq> coord a (map stage zs ! j)"
    then have "x (zs ! m) \<noteq> x (zs ! j) \<or> y (zs ! m) \<noteq> y (zs ! j)"
      by (cases a) (auto simp: coord_def)
    moreover from mj that have "zs ! m \<in> set nodes" "zs ! j \<in> set nodes"
      by (metis nth_mem)+
    ultimately show "\<not> overlap G (map stage zs ! m) (map stage zs ! j) padding"
      using assms mj by simp
  qed
  have sx: "sort_key x (map stage nodes) = map stage (sort_key x nodes)"
    by (rule sort_key_map) simp
  have X: "scanX G (map stage (sort_key x nodes)) padding = Inr (map stage (sort_key x nodes))"
    unfolding scanX_def scan_axis_simps(3)[symmetric]
  proof (rule scan_loop_no_overlap)
    show "sorted (map (coord AxisX) (map stage (sort_key x nodes)))"
      by (simp add: o_def scan_axis_simps)
  qed (use free[of "sort_key x nodes" AxisX] in simp_all)
  have sy: "sort_key y (map stage (sort_key x nodes)) = map stage (sort_key y (sort_key x nodes))"
    by (rule sort_key_map) simp
  have Y: "scanY G (map stage (sort_key y (sort_key x nodes))) padding
      = Inr (map stage (sort_key y (sort_key x nodes)))"
    unfolding scanY_def scan_axis_simps(4)[symmetric]
  proof (rule scan_loop_no_overlap)
    show "sorted (map (coord AxisY) (map stage (sort_key y (sort_key x nodes))))"
      by (simp add: o_def scan_axis_simps)
  qed (use free[of "sort_key y (sort_key x nodes)" AxisY] in simp_all)
  show ?thesis
    by (simp add: pfs_def Let_def sx X sy Y commit_stage)
qed

text \<open>
  Claim C6. When no two different nodes of the input overlap under the padding (the
  test as the scans make it, on nodes that carry their staged position), \<^verbatim>\<open>pfs\<close> returns
  without error and every node has exactly its input position: the result is the input
  array, reordered by the two sorts, with the staged positions deleted. For an empty
  array and for a single node, whatever the geometry, the result is the array itself
  with the staged position deleted; it is the very same array when the node carried no
  staged position on input.
\<close>

theorem pfs_identity_without_overlap:
  "((\<forall>a\<in>set nodes. \<forall>b\<in>set nodes. a \<noteq> b \<longrightarrow> \<not> overlap G (stage a) (stage b) padding) \<longrightarrow>
      pfs G nodes padding = Inr (map (\<lambda>n. n\<lparr>up := None\<rparr>) (sort_key y (sort_key x nodes))))
   \<and> (length nodes \<le> 1 \<longrightarrow> pfs G nodes padding = Inr (map (\<lambda>n. n\<lparr>up := None\<rparr>) nodes))
   \<and> (length nodes \<le> 1 \<and> (\<forall>n\<in>set nodes. up n = None) \<longrightarrow> pfs G nodes padding = Inr nodes)"
proof -
  have one: "pfs G nodes padding = Inr (map (\<lambda>n. n\<lparr>up := None\<rparr>) nodes)" if "length nodes \<le> 1"
  proof -
    from that consider "nodes = []" | n where "nodes = [n]"
      by (cases nodes) auto
    then show ?thesis
    proof cases
      case 1
      with pfs_no_overlap[of nodes G padding] show ?thesis by simp
    next
      case 2
      with pfs_no_overlap[of nodes G padding] show ?thesis by simp
    qed
  qed
  show ?thesis
proof (intro conjI impI; (elim conjE)?)
  assume h: "\<forall>a\<in>set nodes. \<forall>b\<in>set nodes. a \<noteq> b \<longrightarrow> \<not> overlap G (stage a) (stage b) padding"
  have "\<forall>a\<in>set nodes. \<forall>b\<in>set nodes.
      x a \<noteq> x b \<or> y a \<noteq> y b \<longrightarrow> \<not> overlap G (stage a) (stage b) padding"
  proof (intro ballI impI)
    fix a b assume ab: "a \<in> set nodes" "b \<in> set nodes" and ne: "x a \<noteq> x b \<or> y a \<noteq> y b"
    from ne have "a \<noteq> b" by auto
    with h ab show "\<not> overlap G (stage a) (stage b) padding" by simp
  qed
  then show "pfs G nodes padding = Inr (map (\<lambda>n. n\<lparr>up := None\<rparr>) (sort_key y (sort_key x nodes)))"
    by (rule pfs_no_overlap)
next
  assume "length nodes \<le> 1"
  then show "pfs G nodes padding = Inr (map (\<lambda>n. n\<lparr>up := None\<rparr>) nodes)" by (rule one)
next
  assume "length nodes \<le> 1" and "\<forall>n\<in>set nodes. up n = None"
  then show "pfs G nodes padding = Inr nodes"
    by (simp add: one map_clear_unstaged)
qed
qed

theorem pfs_identity_without_overlap_witness:
  "\<not> overlap box_geometry (stage (mk 20 0)) (stage (mk 0 0)) 0 \<and>
   \<not> overlap box_geometry (stage (mk 0 0)) (stage (mk 20 0)) 0 \<and>
   pfs box_geometry [mk 20 0, mk 0 0] 0 = Inr [mk 0 0, mk 20 0] \<and>
   length [stage (mk 0 0)] \<le> 1 \<and>
   pfs box_geometry [stage (mk 0 0)] 0 = Inr [mk 0 0] \<and>
   length [mk 0 0] \<le> 1 \<and> up (mk 0 0) = None \<and>
   pfs box_geometry [mk 0 0] 0 = Inr [mk 0 0] \<and>
   length ([] :: node list) \<le> 1 \<and>
   pfs box_geometry ([] :: node list) 0 = Inr []"
proof -
  have o: "\<not> overlap box_geometry (stage (mk 20 0)) (stage (mk 0 0)) 0"
    "\<not> overlap box_geometry (stage (mk 0 0)) (stage (mk 20 0)) 0"
    by (simp_all add: run_simps)
  then have h: "\<forall>a\<in>set [mk 20 0, mk 0 0]. \<forall>b\<in>set [mk 20 0, mk 0 0].
      a \<noteq> b \<longrightarrow> \<not> overlap box_geometry (stage a) (stage b) 0"
    by simp
  have u: "up (mk 0 0) = None" by (simp add: mk_def)
  have 2: "pfs box_geometry [mk 20 0, mk 0 0] 0 = Inr [mk 0 0, mk 20 0]"
    using pfs_identity_without_overlap[of "[mk 20 0, mk 0 0]" box_geometry 0] h
    by (simp add: mk_def)
  have s: "pfs box_geometry [stage (mk 0 0)] 0 = Inr [mk 0 0]"
    using pfs_identity_without_overlap[of "[stage (mk 0 0)]" box_geometry 0]
    by (simp add: mk_def stage_def)
  have 1: "pfs box_geometry [mk 0 0] 0 = Inr [mk 0 0]"
    using pfs_identity_without_overlap[of "[mk 0 0]" box_geometry 0] u by simp
  have 0: "pfs box_geometry ([] :: node list) 0 = Inr []"
    using pfs_identity_without_overlap[of "[] :: node list" box_geometry 0] by simp
  from o 2 s 1 0 u show ?thesis by simp
qed

section \<open>A tie group and a node to its right\<close>

lemma ex_group_scanX:
  "scanX box_geometry ex_group 0 =
     Inr [stage (mk 0 0), stage (mk 0 4), stage (mk 0 8), (mk 1 4)\<lparr>up := Some \<lparr>px = 10, py = 4\<rparr>\<rparr>]"
  by (simp add: run_simps)

text \<open>
  Claim C4, as stated, fails. On three nodes at \<open>x = 0\<close> and a fourth at \<open>x = 1\<close> that
  overlaps them, \<^verbatim>\<open>maxDelta\<close> is 9; the X pass leaves the staged \<open>x\<close> of the three group
  nodes at 0 and moves the staged \<open>x\<close> of the fourth from 1 to 10. The claim has the
  roles reversed.
\<close>

theorem tie_group_example_counterexample:
  "scanX box_geometry ex_group 0 =
     Inr [stage (mk 0 0), stage (mk 0 4), stage (mk 0 8), (mk 1 4)\<lparr>up := Some \<lparr>px = 10, py = 4\<rparr>\<rparr>] \<and>
   map x ex_group = [0, 0, 0, 1] \<and>
   maxDeltaX box_geometry ex_group 0 0 2 = 9 \<and>
   map (\<lambda>n. map_option px (up n)) ex_group = [Some 0, Some 0, Some 0, Some 1] \<and>
   map (\<lambda>n. map_option px (up n))
     [stage (mk 0 0), stage (mk 0 4), stage (mk 0 8), (mk 1 4)\<lparr>up := Some \<lparr>px = 10, py = 4\<rparr>\<rparr>]
     = [Some 0, Some 0, Some 0, Some 10] \<and>
   [Some 0, Some 0, Some 0, Some 10] \<noteq> [Some (0 + 9), Some (0 + 9), Some (0 + 9), Some (1 :: real)]"
  by (simp add: ex_group_scanX) (simp add: run_simps)

text \<open>
  Claim C4, amended. For three nodes sharing one \<open>x\<close> and a fourth node at strictly
  greater \<open>x\<close> that carries a staged position, the X pass leaves all three group nodes
  as they are and adds \<^verbatim>\<open>maxDelta\<close>, chosen among the deltas of the three pairs, to the
  staged \<open>x\<close> of the fourth node only.
\<close>

theorem tie_group_is_reference_frame:
  assumes "x a = x b" "x b = x c" "x c < x d" "up d = Some u"
  shows "scanX G [a, b, c, d] padding =
     Inr [a, b, c, d\<lparr>up := Some (u\<lparr>px := px u + maxDeltaX G [a, b, c, d] padding 0 2\<rparr>)\<rparr>]"
proof -
  have k: "same [a, b, c, d] 0 (\<lambda>n1 n2. x n1 = x n2) = 2"
    using assms by (simp add: same_def same_loop.simps)
  have b: "scanX_body G padding [a, b, c, d] 0 =
     Inr ([a, b, c, d\<lparr>up := Some (u\<lparr>px := px u + maxDeltaX G [a, b, c, d] padding 0 2\<rparr>)\<rparr>], 3)"
    using assms by (simp add: scanX_body_def k pushX_closed bumpX_def)
  show ?thesis
    unfolding scanX_def
    by (subst scanX_loop.simps) (simp add: b scanX_loop.simps)
qed

theorem tie_group_is_reference_frame_witness:
  "x (ex_group ! 0) = x (ex_group ! 1) \<and> x (ex_group ! 1) = x (ex_group ! 2) \<and>
   x (ex_group ! 2) < x (ex_group ! 3) \<and> up (ex_group ! 3) = Some \<lparr>px = 1, py = 4\<rparr> \<and>
   scanX box_geometry [ex_group ! 0, ex_group ! 1, ex_group ! 2, ex_group ! 3] 0 =
     Inr [ex_group ! 0, ex_group ! 1, ex_group ! 2,
          (ex_group ! 3)\<lparr>up := Some (\<lparr>px = 1, py = 4\<rparr>\<lparr>px := px \<lparr>px = 1, py = 4\<rparr> +
             maxDeltaX box_geometry [ex_group ! 0, ex_group ! 1, ex_group ! 2, ex_group ! 3] 0 0 2\<rparr>)\<rparr>]"
proof -
  have h: "x (ex_group ! 0) = x (ex_group ! 1)" "x (ex_group ! 1) = x (ex_group ! 2)"
    "x (ex_group ! 2) < x (ex_group ! 3)" "up (ex_group ! 3) = Some \<lparr>px = 1, py = 4\<rparr>"
    by (simp_all add: ex_group_def mk_def stage_def)
  from tie_group_is_reference_frame[OF h, of box_geometry 0] h show ?thesis by blast
qed

section \<open>The shifts a scan accumulates\<close>

text \<open>
  On a sorted array of staged nodes, and for a geometry that is \<open>ascending\<close> on the axis,
  a scan returns every node pushed by a shift that is not negative, grows with the
  index, is the same within a tie group and, for two nodes of different groups, differs
  by at least the delta of the pair.
\<close>

lemma bump_as_update: "bump a d n = n\<lparr>up := up (bump a d n)\<rparr>"
  by (cases a) (simp_all add: bump_def bumpX_def bumpY_def)

lemma delta_bump:
  "ignores_staged G padding \<Longrightarrow> delta G (bump a d n1) (bump a e n2) padding = delta G n1 n2 padding"
  by (metis bump_as_update ignores_staged_def)

lemma keep_larger_nonneg:
  "\<forall>d\<in>set ds. 0 \<le> d \<Longrightarrow> 0 \<le> acc \<Longrightarrow>
   acc \<le> foldl keep_larger acc ds \<and> (\<forall>d\<in>set ds. d \<le> foldl keep_larger acc ds)"
proof (induction ds arbitrary: acc)
  case Nil
  then show ?case by simp
next
  case (Cons d ds)
  have a: "0 \<le> keep_larger acc d" "acc \<le> keep_larger acc d" "d \<le> keep_larger acc d"
    using Cons.prems by (auto simp: keep_larger_def)
  from Cons.IH[of "keep_larger acc d"] Cons.prems a(1)
  have "keep_larger acc d \<le> foldl keep_larger (keep_larger acc d) ds"
    and "\<forall>e\<in>set ds. e \<le> foldl keep_larger (keep_larger acc d) ds" by simp_all
  with a show ?case by auto
qed

lemma maxDelta_bounds:
  fixes i :: nat
  assumes asc: "ascending a G padding" and srt: "sorted (map (coord a) nodes)"
  defines "k \<equiv> same nodes i (\<lambda>n1 n2. coord a n1 = coord a n2)"
  shows "0 \<le> maxDelta a G nodes padding i k"
    and "\<And>m j. i \<le> m \<Longrightarrow> m \<le> k \<Longrightarrow> k < j \<Longrightarrow> j < length nodes \<Longrightarrow>
           part a (delta G (nodes ! m) (nodes ! j) padding) \<le> maxDelta a G nodes padding i k"
proof -
  let ?ds = "map (\<lambda>(m, j). part a (delta G (nodes ! m) (nodes ! j) padding))
          (group_pairs i k (length nodes))"
  have nn: "\<forall>d\<in>set ?ds. 0 \<le> d"
  proof
    fix d assume "d \<in> set ?ds"
    then obtain m j where d: "d = part a (delta G (nodes ! m) (nodes ! j) padding)"
      and mj: "i \<le> m" "m \<le> k" "k < j" "j < length nodes"
      by (auto simp: group_pairs_def)
    from beyond_group[OF srt mj(1) mj(2)[unfolded k_def] mj(3)[unfolded k_def] mj(4)]
    have "coord a (nodes ! m) < coord a (nodes ! j)" .
    with asc d show "0 \<le> d" by (simp add: ascending_def)
  qed
  from keep_larger_nonneg[OF nn, of 0]
  have b: "0 \<le> foldl keep_larger 0 ?ds" "\<forall>d\<in>set ?ds. d \<le> foldl keep_larger 0 ?ds" by simp_all
  from b(1) show "0 \<le> maxDelta a G nodes padding i k" by (simp add: maxDelta_eq)
  fix m j assume mj: "i \<le> m" "m \<le> k" "k < j" "j < length nodes"
  then have "(m, j) \<in> set (group_pairs i k (length nodes))" by (simp add: set_group_pairs)
  then have "part a (delta G (nodes ! m) (nodes ! j) padding) \<in> set ?ds" by force
  with b(2) have "part a (delta G (nodes ! m) (nodes ! j) padding) \<le> foldl keep_larger 0 ?ds"
    by blast
  then show "part a (delta G (nodes ! m) (nodes ! j) padding) \<le> maxDelta a G nodes padding i k"
    by (simp add: maxDelta_eq)
qed

lemma scan_loop_shifts:
  assumes asc: "ascending a G padding"
  shows "sorted (map (coord a) nodes) \<Longrightarrow> \<forall>n\<in>set nodes. up n \<noteq> None \<Longrightarrow>
    \<exists>sh. scan_loop a G padding nodes i = Inr (map (\<lambda>j. bump a (sh j) (nodes ! j)) [0..<length nodes])
      \<and> (\<forall>j<i. sh j = 0)
      \<and> (\<forall>j. 0 \<le> sh j)
      \<and> (\<forall>p q. i \<le> p \<and> p \<le> q \<and> q < length nodes \<longrightarrow> sh p \<le> sh q)
      \<and> (\<forall>p q. i \<le> p \<and> p < q \<and> q < length nodes \<and> coord a (nodes ! p) = coord a (nodes ! q)
             \<longrightarrow> sh p = sh q)
      \<and> (ignores_staged G padding \<longrightarrow>
          (\<forall>p q. i \<le> p \<and> p < q \<and> q < length nodes \<and> coord a (nodes ! p) < coord a (nodes ! q)
             \<longrightarrow> part a (delta G (nodes ! p) (nodes ! q) padding) \<le> sh q - sh p))"
proof (induction "length nodes - i" arbitrary: nodes i rule: less_induct)
  case less
  note srt = less.prems(1) and staged = less.prems(2)
  let ?n = "length nodes"
  show ?case
  proof (cases "i < ?n - 1")
    case False
    have "map (\<lambda>j. bump a ((\<lambda>_. 0) j) (nodes ! j)) [0..<?n] = nodes"
      by (simp add: map_nth)
    with False have "scan_loop a G padding nodes i =
        Inr (map (\<lambda>j. bump a ((\<lambda>_. 0) j) (nodes ! j)) [0..<?n])"
      by (simp add: scan_loop_eq[of a G padding nodes i])
    then have e: "scan_loop a G padding nodes i =
        Inr (map (\<lambda>j. bump a ((\<lambda>_. 0) j) (nodes ! j)) [0..<?n])" .
    have none: "\<not> (i \<le> p \<and> p < q \<and> q < ?n)" for p q using False by arith
    show ?thesis
      by (rule exI[of _ "\<lambda>_. 0"]) (use e none in auto)
  next
    case True
    define k where "k = same nodes i (\<lambda>n1 n2. coord a n1 = coord a n2)"
    define D where "D = maxDelta a G nodes padding i k"
    define nodes1 where "nodes1 = take (k + 1) nodes @ map (bump a D) (drop (k + 1) nodes)"
    have ik: "i \<le> k" unfolding k_def by (rule same_ge)
    have ok: "list_all (\<lambda>n. up n \<noteq> None) (drop (k + 1) nodes)"
      using staged by (auto simp: list_all_iff dest: in_set_dropD)
    have b: "scan_body a G padding nodes i = Inr (nodes1, k + 1)"
      using ok by (simp add: scan_body_eq Let_def k_def[symmetric] D_def nodes1_def)
    have len1: "length nodes1 = ?n" by (simp add: nodes1_def)
    have nth1: "nodes1 ! j = (if k < j then bump a D (nodes ! j) else nodes ! j)" if "j < ?n" for j
      using that by (auto simp: nodes1_def nth_append min_def)
    have coord1: "coord a (nodes1 ! j) = coord a (nodes ! j)" if "j < ?n" for j
      using nth1[OF that] by simp
    have "map (coord a) nodes1 = map (coord a) nodes"
      by (rule nth_equalityI) (simp_all add: len1 coord1)
    with srt have srt1: "sorted (map (coord a) nodes1)" by simp
    have staged1: "\<forall>n\<in>set nodes1. up n \<noteq> None"
    proof
      fix n assume "n \<in> set nodes1"
      then consider "n \<in> set (take (k + 1) nodes)"
        | m where "m \<in> set (drop (k + 1) nodes)" "n = bump a D m"
        by (auto simp: nodes1_def)
      then show "up n \<noteq> None"
      proof cases
        case 1
        then have "n \<in> set nodes" by (rule in_set_takeD)
        with staged show ?thesis by blast
      next
        case 2
        then have "m \<in> set nodes" by (auto dest: in_set_dropD)
        with staged have "up m \<noteq> None" by blast
        with 2 show ?thesis by (simp only: bump_fields not_False_eq_True)
      qed
    qed
    have "length nodes1 - (k + 1) < ?n - i" using True ik len1 by simp
    from less.hyps[OF this srt1 staged1] len1 obtain sh' where
      r: "scan_loop a G padding nodes1 (k + 1) =
            Inr (map (\<lambda>j. bump a (sh' j) (nodes1 ! j)) [0..<?n])"
      and z': "\<forall>j<k + 1. sh' j = 0"
      and nn': "\<forall>j. 0 \<le> sh' j"
      and mono': "\<forall>p q. k + 1 \<le> p \<and> p \<le> q \<and> q < ?n \<longrightarrow> sh' p \<le> sh' q"
      and eq': "\<forall>p q. k + 1 \<le> p \<and> p < q \<and> q < ?n \<and> coord a (nodes1 ! p) = coord a (nodes1 ! q)
             \<longrightarrow> sh' p = sh' q"
      and sep': "ignores_staged G padding \<longrightarrow>
          (\<forall>p q. k + 1 \<le> p \<and> p < q \<and> q < ?n \<and> coord a (nodes1 ! p) < coord a (nodes1 ! q)
             \<longrightarrow> part a (delta G (nodes1 ! p) (nodes1 ! q) padding) \<le> sh' q - sh' p)"
      by auto
    note mb = maxDelta_bounds[OF asc srt, of i, folded k_def D_def]
    define sh where "sh j = (if k < j then D + sh' j else 0)" for j
    have res: "scan_loop a G padding nodes i = Inr (map (\<lambda>j. bump a (sh j) (nodes ! j)) [0..<?n])"
    proof -
      have "map (\<lambda>j. bump a (sh' j) (nodes1 ! j)) [0..<?n] = map (\<lambda>j. bump a (sh j) (nodes ! j)) [0..<?n]"
        using z' by (auto simp: nth1 sh_def bump_bump)
      with r b True show ?thesis by (simp add: scan_loop_eq[of a G padding nodes i])
    qed
    have P1: "\<forall>j<i. sh j = 0" using ik by (simp add: sh_def)
    have P0: "\<forall>j. 0 \<le> sh j" using nn' mb(1) by (simp add: sh_def)
    have P2: "\<forall>p q. i \<le> p \<and> p \<le> q \<and> q < ?n \<longrightarrow> sh p \<le> sh q"
    proof (intro allI impI)
      fix p q assume pq: "i \<le> p \<and> p \<le> q \<and> q < ?n"
      show "sh p \<le> sh q"
      proof (cases "k < p")
        case True
        with pq mono' have "sh' p \<le> sh' q" by simp
        with True pq show ?thesis by (simp add: sh_def)
      next
        case False
        with P0 show ?thesis by (simp add: sh_def)
      qed
    qed
    have P3: "\<forall>p q. i \<le> p \<and> p < q \<and> q < ?n \<and> coord a (nodes ! p) = coord a (nodes ! q)
             \<longrightarrow> sh p = sh q"
    proof (intro allI impI)
      fix p q assume pq: "i \<le> p \<and> p < q \<and> q < ?n \<and> coord a (nodes ! p) = coord a (nodes ! q)"
      show "sh p = sh q"
      proof (cases "k < p")
        case True
        with pq eq' coord1 have "sh' p = sh' q" by simp
        with True pq show ?thesis by (simp add: sh_def)
      next
        case False
        have "\<not> k < q"
        proof
          assume "k < q"
          with beyond_group[OF srt, of i p q] pq False show False by (simp add: k_def)
        qed
        with False show ?thesis by (simp add: sh_def)
      qed
    qed
    have P4: "\<forall>p q. i \<le> p \<and> p < q \<and> q < ?n \<and> coord a (nodes ! p) < coord a (nodes ! q)
             \<longrightarrow> part a (delta G (nodes ! p) (nodes ! q) padding) \<le> sh q - sh p"
      if ign: "ignores_staged G padding"
    proof (intro allI impI)
      fix p q assume pq: "i \<le> p \<and> p < q \<and> q < ?n \<and> coord a (nodes ! p) < coord a (nodes ! q)"
      show "part a (delta G (nodes ! p) (nodes ! q) padding) \<le> sh q - sh p"
      proof (cases "k < p")
        case True
        with pq sep' ign coord1
        have "part a (delta G (nodes1 ! p) (nodes1 ! q) padding) \<le> sh' q - sh' p" by simp
        moreover have "delta G (nodes1 ! p) (nodes1 ! q) padding = delta G (nodes ! p) (nodes ! q) padding"
          using True pq by (simp add: nth1 delta_bump[OF ign])
        ultimately show ?thesis using True pq by (simp add: sh_def)
      next
        case False
        have kq: "k < q"
        proof (rule ccontr)
          assume "\<not> k < q"
          with pq False same_group[of i p nodes a] same_group[of i q nodes a] show False
            by (simp add: k_def)
        qed
        from mb(2)[of p q] pq False kq
        have "part a (delta G (nodes ! p) (nodes ! q) padding) \<le> D" by simp
        with False kq nn'[rule_format, of q] show ?thesis by (simp add: sh_def)
      qed
    qed
    from res P1 P0 P2 P3 P4 show ?thesis by blast
  qed
qed

lemma scan_pairs:
  assumes asc: "ascending a G padding"
    and srt: "sorted (map (coord a) nodes)" and staged: "\<forall>n\<in>set nodes. up n \<noteq> None"
  shows "\<exists>ds. length ds = length nodes
      \<and> scan_loop a G padding nodes 0 = Inr (map2 (bump a) ds nodes)
      \<and> (\<forall>p<length nodes. \<forall>q<length nodes.
            (coord a (nodes ! p) = coord a (nodes ! q) \<longrightarrow> ds ! p = ds ! q) \<and>
            (coord a (nodes ! p) < coord a (nodes ! q) \<longrightarrow> ds ! p \<le> ds ! q \<and>
               (ignores_staged G padding \<longrightarrow>
                  part a (delta G (nodes ! p) (nodes ! q) padding) \<le> ds ! q - ds ! p)))"
proof -
  let ?n = "length nodes"
  from scan_loop_shifts[OF asc srt staged, of 0] obtain sh where
    r: "scan_loop a G padding nodes 0 = Inr (map (\<lambda>j. bump a (sh j) (nodes ! j)) [0..<?n])"
    and mono: "\<forall>p q. p \<le> q \<and> q < ?n \<longrightarrow> sh p \<le> sh q"
    and eq: "\<forall>p q. p < q \<and> q < ?n \<and> coord a (nodes ! p) = coord a (nodes ! q) \<longrightarrow> sh p = sh q"
    and sep: "ignores_staged G padding \<longrightarrow>
          (\<forall>p q. p < q \<and> q < ?n \<and> coord a (nodes ! p) < coord a (nodes ! q)
             \<longrightarrow> part a (delta G (nodes ! p) (nodes ! q) padding) \<le> sh q - sh p)"
    by auto
  define ds where "ds = map sh [0..<?n]"
  have len: "length ds = ?n" by (simp add: ds_def)
  have nth: "ds ! p = sh p" if "p < ?n" for p using that by (simp add: ds_def)
  have "map (\<lambda>j. bump a (sh j) (nodes ! j)) [0..<?n] = map2 (bump a) ds nodes"
    by (rule nth_equalityI) (simp_all add: len nth)
  with r have r': "scan_loop a G padding nodes 0 = Inr (map2 (bump a) ds nodes)" by simp
  have le: "coord a (nodes ! p) \<le> coord a (nodes ! q)" if "p \<le> q" "q < ?n" for p q
    using srt that by (simp add: sorted_iff_nth_mono)
  have rel: "(coord a (nodes ! p) = coord a (nodes ! q) \<longrightarrow> ds ! p = ds ! q) \<and>
            (coord a (nodes ! p) < coord a (nodes ! q) \<longrightarrow> ds ! p \<le> ds ! q \<and>
               (ignores_staged G padding \<longrightarrow>
                  part a (delta G (nodes ! p) (nodes ! q) padding) \<le> ds ! q - ds ! p))"
    if pq: "p < ?n" "q < ?n" for p q
  proof (intro conjI impI)
    assume e: "coord a (nodes ! p) = coord a (nodes ! q)"
    consider "p < q" | "q < p" | "p = q" by linarith
    then show "ds ! p = ds ! q"
    proof cases
      case 1 with eq e pq show ?thesis by (simp add: nth)
    next
      case 2 with eq[rule_format, of q p] e pq show ?thesis by (simp add: nth)
    next
      case 3 then show ?thesis by simp
    qed
  next
    assume l: "coord a (nodes ! p) < coord a (nodes ! q)"
    have "p < q"
    proof (rule ccontr)
      assume "\<not> p < q"
      with le[of q p] pq l show False by simp
    qed
    with mono pq show "ds ! p \<le> ds ! q" by (simp add: nth)
    assume "ignores_staged G padding"
    with sep \<open>p < q\<close> l pq
    show "part a (delta G (nodes ! p) (nodes ! q) padding) \<le> ds ! q - ds ! p"
      by (simp add: nth)
  qed
  from len r' rel show ?thesis by blast
qed

lemma insort_key_map_gen:
  "insort_key k (g a) (map g zs) = map g (insort_key (\<lambda>z. k (g z)) a zs)"
  by (induction zs) simp_all

lemma sort_key_map_gen: "sort_key k (map g zs) = map g (sort_key (\<lambda>z. k (g z)) zs)"
  by (induction zs) (simp_all add: insort_key_map_gen)

lemma commit_bumped:
  "(bumpY dy (bumpX dx (stage n)))\<lparr>x := px (the (up (bumpY dy (bumpX dx (stage n))))),
      y := py (the (up (bumpY dy (bumpX dx (stage n))))), up := None\<rparr> = moved n dx dy"
  by (simp add: bumpX_def bumpY_def stage_def moved_def)

section \<open>A whole run of \<^verbatim>\<open>pfs\<close>\<close>

text \<open>The result of \<^verbatim>\<open>pfs\<close> as the nodes of \<open>final_order\<close>, each moved by its two shifts, with
  the relations between the shifts of any two nodes.\<close>

lemma pfs_run:
  fixes nodes :: "'m node_scheme list"
  assumes ascX: "ascending AxisX G padding" and ascY: "ascending AxisY G padding"
  defines "ord \<equiv> final_order nodes"
  shows "\<exists>dxs dys. length dxs = length nodes \<and> length dys = length nodes \<and>
     pfs G nodes padding = Inr (map (\<lambda>(n, dx, dy). moved n dx dy) (zip ord (zip dxs dys))) \<and>
     (\<forall>p<length nodes. \<forall>q<length nodes.
        (x (ord ! p) = x (ord ! q) \<longrightarrow> dxs ! p = dxs ! q) \<and>
        (x (ord ! p) < x (ord ! q) \<longrightarrow> dxs ! p \<le> dxs ! q \<and>
           (ignores_staged G padding \<longrightarrow>
              px (delta G (stage (ord ! p)) (stage (ord ! q)) padding) \<le> dxs ! q - dxs ! p)) \<and>
        (y (ord ! p) = y (ord ! q) \<longrightarrow> dys ! p = dys ! q) \<and>
        (y (ord ! p) < y (ord ! q) \<longrightarrow> dys ! p \<le> dys ! q \<and>
           (ignores_staged G padding \<longrightarrow>
              py (delta G (stage (ord ! p)) (stage (ord ! q)) padding) \<le> dys ! q - dys ! p)))"
proof -
  let ?n = "length nodes"
  define xs0 where "xs0 = sort_key x nodes"
  define g :: "'m node_scheme \<times> real \<Rightarrow> 'm node_scheme" where "g = (\<lambda>(n, d). bumpX d (stage n))"
  have len0: "length xs0 = ?n" by (simp add: xs0_def)
  have sx: "sort_key x (map stage nodes) = map stage xs0"
    unfolding xs0_def by (rule sort_key_map) simp

  \<comment> \<open>the X pass\<close>
  have "sorted (map (coord AxisX) (map stage xs0))"
    by (simp add: o_def scan_axis_simps xs0_def)
  moreover have "\<forall>n\<in>set (map stage xs0). up n \<noteq> None" by auto
  ultimately obtain dxs0 where
    ldx0: "length dxs0 = ?n"
    and rx: "scan_loop AxisX G padding (map stage xs0) 0 = Inr (map2 (bump AxisX) dxs0 (map stage xs0))"
    and relx0: "\<forall>p<?n. \<forall>q<?n.
            (x (xs0 ! p) = x (xs0 ! q) \<longrightarrow> dxs0 ! p = dxs0 ! q) \<and>
            (x (xs0 ! p) < x (xs0 ! q) \<longrightarrow> dxs0 ! p \<le> dxs0 ! q \<and>
               (ignores_staged G padding \<longrightarrow>
                  px (delta G (stage (xs0 ! p)) (stage (xs0 ! q)) padding) \<le> dxs0 ! q - dxs0 ! p))"
    using scan_pairs[OF ascX, of "map stage xs0"] by (auto simp: len0 scan_axis_simps)
  define zs where "zs = zip xs0 dxs0"
  have lzs: "length zs = ?n" by (simp add: zs_def len0 ldx0)
  have ax: "map2 (bump AxisX) dxs0 (map stage xs0) = map g zs"
    by (rule nth_equalityI) (simp_all add: zs_def g_def len0 ldx0 scan_axis_simps)
  have X: "scanX G (map stage xs0) padding = Inr (map g zs)"
    using rx by (simp add: scanX_def scan_axis_simps ax[unfolded scan_axis_simps])

  \<comment> \<open>the second sort\<close>
  define zs' where "zs' = sort_key (\<lambda>z. y (fst z)) zs"
  have yg: "(\<lambda>z. y (g z)) = (\<lambda>z. y (fst z))"
    by (simp add: fun_eq_iff g_def bumpX_def stage_def)
  have sy: "sort_key y (map g zs) = map g zs'"
    by (simp add: sort_key_map_gen[of y g zs] yg zs'_def)
  have lzs': "length zs' = ?n" by (simp add: zs'_def lzs)
  have "map fst zs' = sort_key y (map fst zs)"
    by (simp add: zs'_def sort_key_map_gen[of y fst zs])
  also have "map fst zs = xs0" by (simp add: zs_def len0 ldx0)
  finally have fst': "map fst zs' = ord" by (simp add: ord_def final_order_def xs0_def)
  define dxs where "dxs = map snd zs'"
  have ldx: "length dxs = ?n" by (simp add: dxs_def lzs')
  have lord: "length ord = ?n" by (simp add: ord_def final_order_def)
  have nth': "zs' ! p = (ord ! p, dxs ! p)" if "p < ?n" for p
    using that lzs' by (simp add: fst'[symmetric] dxs_def prod_eq_iff)
  have from0: "\<exists>p0<?n. xs0 ! p0 = ord ! p \<and> dxs0 ! p0 = dxs ! p" if "p < ?n" for p
  proof -
    have "zs' ! p \<in> set zs'" using that lzs' by simp
    then have "(ord ! p, dxs ! p) \<in> set zs'" by (simp only: nth'[OF that])
    then have "(ord ! p, dxs ! p) \<in> set (zip xs0 dxs0)"
      by (simp add: zs'_def zs_def)
    then show ?thesis by (auto simp: set_zip len0 ldx0)
  qed

  \<comment> \<open>the Y pass\<close>
  have e: "map (coord AxisY) (map g zs') = map (\<lambda>z. y (fst z)) zs'"
    by (simp add: scan_axis_simps o_def yg)
  have "sorted (map (\<lambda>z. y (fst z)) zs')"
    unfolding zs'_def by (rule sorted_sort_key)
  then have "sorted (map (coord AxisY) (map g zs'))"
    by (simp only: e)
  moreover have "\<forall>n\<in>set (map g zs'). up n \<noteq> None"
    by (auto simp: g_def bumpX_def stage_def split: prod.splits)
  ultimately obtain dys where
    ldy: "length dys = ?n"
    and ry: "scan_loop AxisY G padding (map g zs') 0 = Inr (map2 (bump AxisY) dys (map g zs'))"
    and rely0: "\<forall>p<?n. \<forall>q<?n.
            (y (g (zs' ! p)) = y (g (zs' ! q)) \<longrightarrow> dys ! p = dys ! q) \<and>
            (y (g (zs' ! p)) < y (g (zs' ! q)) \<longrightarrow> dys ! p \<le> dys ! q \<and>
               (ignores_staged G padding \<longrightarrow>
                  py (delta G (g (zs' ! p)) (g (zs' ! q)) padding) \<le> dys ! q - dys ! p))"
    using scan_pairs[OF ascY, of "map g zs'"] by (auto simp: lzs' scan_axis_simps)
  have Y: "scanY G (map g zs') padding = Inr (map2 bumpY dys (map g zs'))"
    using ry by (simp add: scanY_def scan_axis_simps)

  \<comment> \<open>the commit\<close>
  have "\<forall>n\<in>set (map2 bumpY dys (map g zs')). up n \<noteq> None"
    by (auto simp: g_def bumpX_def bumpY_def stage_def set_zip split: prod.splits)
  from commit_staged[OF this]
  have "commit (map2 bumpY dys (map g zs')) =
      Inr (map (\<lambda>(n, dx, dy). moved n dx dy) (zip ord (zip dxs dys)))"
    apply simp
    apply (rule nth_equalityI)
     apply (simp add: lzs' ldy lord ldx)
    apply (simp add: lzs' ldy lord ldx nth' g_def commit_bumped)
    done
  with X Y sx sy have res:
    "pfs G nodes padding = Inr (map (\<lambda>(n, dx, dy). moved n dx dy) (zip ord (zip dxs dys)))"
    by (simp add: pfs_def Let_def)

  \<comment> \<open>the relations between the shifts\<close>
  have gy: "y (g (zs' ! p)) = y (ord ! p)" if "p < ?n" for p
    using that by (simp add: nth' g_def bumpX_def stage_def)
  have gd: "delta G (g (zs' ! p)) (g (zs' ! q)) padding = delta G (stage (ord ! p)) (stage (ord ! q)) padding"
    if "p < ?n" "q < ?n" "ignores_staged G padding" for p q
    using that delta_bump[of G padding AxisX]
    by (simp add: nth' g_def scan_axis_simps)
  have rel: "(x (ord ! p) = x (ord ! q) \<longrightarrow> dxs ! p = dxs ! q) \<and>
        (x (ord ! p) < x (ord ! q) \<longrightarrow> dxs ! p \<le> dxs ! q \<and>
           (ignores_staged G padding \<longrightarrow>
              px (delta G (stage (ord ! p)) (stage (ord ! q)) padding) \<le> dxs ! q - dxs ! p)) \<and>
        (y (ord ! p) = y (ord ! q) \<longrightarrow> dys ! p = dys ! q) \<and>
        (y (ord ! p) < y (ord ! q) \<longrightarrow> dys ! p \<le> dys ! q \<and>
           (ignores_staged G padding \<longrightarrow>
              py (delta G (stage (ord ! p)) (stage (ord ! q)) padding) \<le> dys ! q - dys ! p))"
    if pq: "p < ?n" "q < ?n" for p q
  proof -
    from from0[OF pq(1)] obtain p0 where p0: "p0 < ?n" "xs0 ! p0 = ord ! p" "dxs0 ! p0 = dxs ! p"
      by blast
    from from0[OF pq(2)] obtain q0 where q0: "q0 < ?n" "xs0 ! q0 = ord ! q" "dxs0 ! q0 = dxs ! q"
      by blast
    from relx0[rule_format, OF p0(1) q0(1)] rely0[rule_format, OF pq]
    show ?thesis
      by (simp add: p0 q0 gy[OF pq(1)] gy[OF pq(2)] gd[OF pq]) 
  qed
  from ldx ldy res rel show ?thesis by blast
qed

section \<open>Order along each axis\<close>

lemma pushes_ascending_axes:
  "pushes_ascending G padding \<Longrightarrow> ascending a G padding"
  by (cases a) (simp_all add: pushes_ascending_def ascending_def coord_def part_def)

lemma moved_fields [simp]:
  "x (moved n dx dy) = x n + dx" "y (moved n dx dy) = y n + dy"
  "width (moved n dx dy) = width n" "height (moved n dx dy) = height n"
  "up (moved n dx dy) = None"
  by (simp_all add: moved_def)

lemma moved_as_update:
  "moved n dx dy = n\<lparr>x := x (moved n dx dy), y := y (moved n dx dy), up := None\<rparr>"
  by (simp add: moved_def)

text \<open>The sample geometry pushes in ascending direction.\<close>

lemma stretch_ge_1:
  assumes "\<bar>dx\<bar> < gx" "\<bar>dy\<bar> < gy"
  shows "1 \<le> stretch dx dy gx gy"
proof -
  have a: "1 \<le> gx / \<bar>dx\<bar>" if "dx \<noteq> 0" using that assms(1) by (simp add: le_divide_eq)
  have b: "1 \<le> gy / \<bar>dy\<bar>" if "dy \<noteq> 0" using that assms(2) by (simp add: le_divide_eq)
  show ?thesis using a b by (auto simp: stretch_def)
qed

lemma box_delta:
  "box_overlap n1 n2 padding \<Longrightarrow>
   delta box_geometry n1 n2 padding =
     (let t = stretch (x n2 - x n1) (y n2 - y n1) (gapX n1 n2 padding) (gapY n1 n2 padding)
      in \<lparr>px = (t - 1) * (x n2 - x n1), py = (t - 1) * (y n2 - y n1)\<rparr>)"
  by (simp add: delta_def box_geometry_def box_optimalVector_def box_vector_def box_diff_def
      Let_def algebra_simps)

lemma box_delta_none:
  "\<not> box_overlap n1 n2 padding \<Longrightarrow> delta box_geometry n1 n2 padding = \<lparr>px = 0, py = 0\<rparr>"
  by (simp add: delta_def box_geometry_def)

lemma box_pushes_ascending: "pushes_ascending box_geometry padding"
  unfolding pushes_ascending_def
proof (intro allI conjI impI)
  fix n1 n2 :: "'a node_scheme"
  assume l: "x n1 < x n2"
  show "0 \<le> px (delta box_geometry n1 n2 padding)"
  proof (cases "box_overlap n1 n2 padding")
    case True
    then have "1 \<le> stretch (x n2 - x n1) (y n2 - y n1) (gapX n1 n2 padding) (gapY n1 n2 padding)"
      by (intro stretch_ge_1) (simp_all add: box_overlap_def)
    with l True show ?thesis by (simp add: box_delta Let_def)
  qed (simp add: box_delta_none)
next
  fix n1 n2 :: "'a node_scheme"
  assume l: "y n1 < y n2"
  show "0 \<le> py (delta box_geometry n1 n2 padding)"
  proof (cases "box_overlap n1 n2 padding")
    case True
    then have "1 \<le> stretch (x n2 - x n1) (y n2 - y n1) (gapX n1 n2 padding) (gapY n1 n2 padding)"
      by (intro stretch_ge_1) (simp_all add: box_overlap_def)
    with l True show ?thesis by (simp add: box_delta Let_def)
  qed (simp add: box_delta_none)
qed

lemma ex_three_pfs:
  "pfs box_geometry ex_three 0 = Inr [mk 0 0, mk 18 9, mk 8 14]"
  by (simp add: run_simps ex_three_def)

text \<open>
  Claim C2. Given a geometry whose deltas do not point backwards, \<^verbatim>\<open>pfs\<close> returns, and
  for any two nodes: if the first had the smaller \<open>x\<close> before the call, it does not have
  the larger \<open>x\<close> afterwards, and likewise for \<open>y\<close>. The node at index \<open>p\<close> of the result
  is the input node \<open>final_order nodes ! p\<close> with a new position and no staged position,
  and \<open>final_order nodes\<close> is a rearrangement of the input nodes. The sign of the padding
  plays no role.
\<close>

theorem pfs_preserves_order:
  assumes "pushes_ascending G padding"
  shows "mset (final_order nodes) = mset nodes \<and>
     (\<exists>out. pfs G nodes padding = Inr out \<and> length out = length nodes \<and>
      (\<forall>p<length nodes. \<forall>q<length nodes.
          out ! p = (final_order nodes ! p)\<lparr>x := x (out ! p), y := y (out ! p), up := None\<rparr> \<and>
          (x (final_order nodes ! p) < x (final_order nodes ! q) \<longrightarrow> x (out ! p) \<le> x (out ! q)) \<and>
          (y (final_order nodes ! p) < y (final_order nodes ! q) \<longrightarrow> y (out ! p) \<le> y (out ! q))))"
proof -
  let ?ord = "final_order nodes"
  let ?n = "length nodes"
  from pfs_run[OF pushes_ascending_axes[OF assms] pushes_ascending_axes[OF assms], of nodes]
  obtain dxs dys where l: "length dxs = ?n" "length dys = ?n"
    and res: "pfs G nodes padding = Inr (map (\<lambda>(n, dx, dy). moved n dx dy) (zip ?ord (zip dxs dys)))"
    and rel: "\<forall>p<?n. \<forall>q<?n.
        (x (?ord ! p) < x (?ord ! q) \<longrightarrow> dxs ! p \<le> dxs ! q) \<and>
        (y (?ord ! p) < y (?ord ! q) \<longrightarrow> dys ! p \<le> dys ! q)"
    by blast
  let ?out = "map (\<lambda>(n, dx, dy). moved n dx dy) (zip ?ord (zip dxs dys))"
  have lo: "length ?ord = ?n" by (simp add: final_order_def)
  have nth: "?out ! p = moved (?ord ! p) (dxs ! p) (dys ! p)" if "p < ?n" for p
    using that l lo by simp
  have "length ?out = ?n" using l lo by simp
  moreover have "?out ! p = (?ord ! p)\<lparr>x := x (?out ! p), y := y (?out ! p), up := None\<rparr> \<and>
          (x (?ord ! p) < x (?ord ! q) \<longrightarrow> x (?out ! p) \<le> x (?out ! q)) \<and>
          (y (?ord ! p) < y (?ord ! q) \<longrightarrow> y (?out ! p) \<le> y (?out ! q))"
    if pq: "p < ?n" "q < ?n" for p q
  proof (intro conjI impI)
    show "?out ! p = (?ord ! p)\<lparr>x := x (?out ! p), y := y (?out ! p), up := None\<rparr>"
      unfolding nth[OF pq(1)] by (rule moved_as_update)
    assume "x (?ord ! p) < x (?ord ! q)"
    with rel pq show "x (?out ! p) \<le> x (?out ! q)"
      unfolding nth[OF pq(1)] nth[OF pq(2)] by fastforce
  next
    assume "y (?ord ! p) < y (?ord ! q)"
    with rel pq show "y (?out ! p) \<le> y (?out ! q)"
      unfolding nth[OF pq(1)] nth[OF pq(2)] by fastforce
  qed
  ultimately have "\<exists>out. pfs G nodes padding = Inr out \<and> length out = length nodes \<and>
      (\<forall>p<length nodes. \<forall>q<length nodes.
          out ! p = (final_order nodes ! p)\<lparr>x := x (out ! p), y := y (out ! p), up := None\<rparr> \<and>
          (x (final_order nodes ! p) < x (final_order nodes ! q) \<longrightarrow> x (out ! p) \<le> x (out ! q)) \<and>
          (y (final_order nodes ! p) < y (final_order nodes ! q) \<longrightarrow> y (out ! p) \<le> y (out ! q)))"
    using res by blast
  moreover have "mset (final_order nodes) = mset nodes" by (simp add: final_order_def)
  ultimately show ?thesis by blast
qed

theorem pfs_preserves_order_witness:
  "pushes_ascending (box_geometry :: unit geometry) 0 \<and>
   pfs box_geometry ex_three 0 = Inr [mk 0 0, mk 18 9, mk 8 14] \<and>
   final_order ex_three = [mk 0 0, mk 3 1, mk 1 2] \<and>
   x (final_order ex_three ! 2) < x (final_order ex_three ! 1) \<and>
   x ([mk 0 0, mk 18 9, mk 8 14] ! 2) \<le> x ([mk 0 0, mk 18 9, mk 8 14] ! 1) \<and>
   y (final_order ex_three ! 1) < y (final_order ex_three ! 2) \<and>
   y ([mk 0 0, mk 18 9, mk 8 14] ! 1) \<le> y ([mk 0 0, mk 18 9, mk 8 14] ! 2)"
proof -
  have h: "pushes_ascending (box_geometry :: unit geometry) 0" by (rule box_pushes_ascending)
  have fo: "final_order ex_three = [mk 0 0, mk 3 1, mk 1 2]"
    by (simp add: final_order_def ex_three_def mk_def)
  have lt: "x (final_order ex_three ! 2) < x (final_order ex_three ! 1)"
    "y (final_order ex_three ! 1) < y (final_order ex_three ! 2)"
    by (simp_all add: fo mk_def)
  from pfs_preserves_order[OF h, of ex_three] obtain out where
    o: "pfs box_geometry ex_three 0 = Inr out"
    and r: "\<forall>p<length ex_three. \<forall>q<length ex_three.
          (x (final_order ex_three ! p) < x (final_order ex_three ! q) \<longrightarrow> x (out ! p) \<le> x (out ! q)) \<and>
          (y (final_order ex_three ! p) < y (final_order ex_three ! q) \<longrightarrow> y (out ! p) \<le> y (out ! q))"
    by blast
  from o have out: "out = [mk 0 0, mk 18 9, mk 8 14]" by (simp add: ex_three_pfs)
  have l: "2 < length ex_three" "1 < length ex_three" by (simp_all add: ex_three_def)
  from r[rule_format, OF l(1) l(2)] r[rule_format, OF l(2) l(1)] lt
  have "x (out ! 2) \<le> x (out ! 1)" "y (out ! 1) \<le> y (out ! 2)" by blast+
  with h fo lt show ?thesis unfolding out by (simp add: ex_three_pfs)
qed

section \<open>The contract of the geometry\<close>


lemma box_overlap_update [simp]:
  "box_overlap (a\<lparr>up := u\<rparr>) (b\<lparr>up := v\<rparr>) padding = box_overlap a b padding"
  by (simp add: box_overlap_def gapX_def gapY_def)










lemma box_overlap_stage [simp]: "box_overlap (stage a) (stage b) padding = box_overlap a b padding"
  by (simp add: stage_def)


lemma gap_stage [simp]:
  "gapX (stage a) (stage b) padding = gapX a b padding"
  "gapY (stage a) (stage b) padding = gapY a b padding"
  by (simp_all add: gapX_def gapY_def)




section \<open>Residual overlap\<close>

text \<open>Whatever the geometry, nodes that all share one position are returned where they
  are: they form a single tie group in both scans.\<close>

lemma pfs_coincident:
  assumes "\<forall>a\<in>set nodes. \<forall>b\<in>set nodes. x a = x b \<and> y a = y b"
  shows "pfs G nodes padding = Inr (map (\<lambda>n. n\<lparr>up := None\<rparr>) nodes)"
proof -
  have eq: "x (nodes ! i) = x (nodes ! j) \<and> y (nodes ! i) = y (nodes ! j)"
    if "i < length nodes" "j < length nodes" for i j
  proof -
    from that have "nodes ! i \<in> set nodes" "nodes ! j \<in> set nodes" by simp_all
    with assms show ?thesis by blast
  qed
  have sx: "sorted (map x nodes)"
    unfolding sorted_iff_nth_mono
  proof (intro allI impI)
    fix i j assume "i \<le> j" "j < length (map x nodes)"
    then have "i < length nodes" "j < length nodes" by simp_all
    from eq[OF this] this show "map x nodes ! i \<le> map x nodes ! j" by simp
  qed
  have sy: "sorted (map y nodes)"
    unfolding sorted_iff_nth_mono
  proof (intro allI impI)
    fix i j assume "i \<le> j" "j < length (map y nodes)"
    then have "i < length nodes" "j < length nodes" by simp_all
    from eq[OF this] this show "map y nodes ! i \<le> map y nodes ! j" by simp
  qed
  have "\<forall>a\<in>set nodes. \<forall>b\<in>set nodes.
      x a \<noteq> x b \<or> y a \<noteq> y b \<longrightarrow> \<not> overlap G (stage a) (stage b) padding"
  proof (intro ballI impI)
    fix a b assume "a \<in> set nodes" "b \<in> set nodes" "x a \<noteq> x b \<or> y a \<noteq> y b"
    with assms have False by blast
    then show "\<not> overlap G (stage a) (stage b) padding" ..
  qed
  from pfs_no_overlap[OF this] show ?thesis
    by (simp add: sort_key_id_if_sorted[OF sx] sort_key_id_if_sorted[OF sy])
qed




section \<open>Running \<^verbatim>\<open>pfs\<close> twice\<close>







end
